theory Spec2Isabelle
  imports Complex_Main "HOL-Library.Word"
begin

section \<open>runqlen: run-queue length sampling session and histogram reporter\<close>

text \<open>
  A shallow embedding of \<^verbatim>\<open>libbpf-tools/runqlen.c\<close>: the two reporters
  \<^verbatim>\<open>print_runq_occupancy\<close> and \<^verbatim>\<open>print_linear_hists\<close>, the attachment loop
  \<^verbatim>\<open>open_and_attach_perf_event\<close>, the signal handler and \<^verbatim>\<open>main\<close> after argument
  parsing. Everything outside the process (the kernel sampler, libbpf, the clock, SIGINT)
  is an explicit input of the model.
\<close>

subsection \<open>Data\<close>

type_synonym u64 = "64 word"

text \<open>
  \<^verbatim>\<open>struct hist { ... slots[MAX_SLOTS]; }\<close>. The header \<^verbatim>\<open>runqlen.h\<close> that declares it is
  not among the sources, so the counter type is the type parameter \<open>'c\<close> (used at
  \<open>'a word\<close>, an unsigned counter of any width).
\<close>

record 'c hist =
  slots :: "'c list"

text \<open>
  The constants \<^verbatim>\<open>MAX_SLOTS\<close> (the number of buckets of a histogram) and \<^verbatim>\<open>MAX_CPU_NR\<close>
  (the number of rows of the table) of the same missing header are parameters of the
  model: every function that needs them takes a \<open>header\<close>, and their values are left
  open.
\<close>

record header =
  MAX_SLOTS :: nat
  MAX_CPU_NR :: nat

text \<open>
  \<^verbatim>\<open>struct env\<close>. The field \<^verbatim>\<open>times\<close> is a C \<^verbatim>\<open>int\<close>: a 32-bit word read by \<open>sint\<close>.
\<close>

record env =
  per_cpu :: bool
  runqocc :: bool
  timestamp :: bool
  interval :: int
  times_env :: "32 word"
  verbose :: bool

text \<open>
  A table is well formed for the header when it has the shape its C type gives it:
  \<^verbatim>\<open>struct hist hists[MAX_CPU_NR]\<close>, each row with \<^verbatim>\<open>MAX_SLOTS\<close> slots. The reporters
  index the table with \<open>!\<close> and \<open>[i := v]\<close>; in C every index they use is inside the
  array, because \<^verbatim>\<open>main\<close> refuses to run with \<^verbatim>\<open>nr_cpus > MAX_CPU_NR\<close>. The properties
  that speak about the contents of a row assume this shape and these bounds.
\<close>

definition wf_hist :: "header \<Rightarrow> 'c hist \<Rightarrow> bool" where
  "wf_hist H h = (length (slots h) = MAX_SLOTS H)"

definition wf_table :: "header \<Rightarrow> 'c hist list \<Rightarrow> bool" where
  "wf_table H hists = (length hists = MAX_CPU_NR H \<and> list_all (wf_hist H) hists)"

text \<open>\<^verbatim>\<open>static struct hist zero;\<close> -- static storage, so every slot is 0.\<close>

definition zero_hist :: "header \<Rightarrow> 'a::len word hist" where
  "zero_hist H = \<lparr>slots = replicate (MAX_SLOTS H) 0\<rparr>"

subsection \<open>Floating-point values, idealised\<close>

text \<open>
  \<^verbatim>\<open>runqocc = queued * 1.0 / max(1ULL, samples)\<close> is a floating-point division. The model
  keeps the exact quotient of the two integer operands (no rounding), and writes out
  what IEEE division does for a zero divisor: NaN for 0/0 and infinity otherwise.
\<close>

datatype fval = Fin rat | NaN | Infty

definition fdiv :: "u64 \<Rightarrow> u64 \<Rightarrow> fval" where
  "fdiv a b =
     (if b = 0 then (if a = 0 then NaN else Infty)
      else Fin (of_nat (unat a) / of_nat (unat b)))"

fun fscale :: "rat \<Rightarrow> fval \<Rightarrow> fval" where
  "fscale c (Fin r) = Fin (c * r)"
| "fscale c NaN = NaN"
| "fscale c Infty = (if c = 0 then NaN else Infty)"

subsection \<open>Output\<close>

text \<open>One constructor per \<^verbatim>\<open>printf\<close> of the source, in the order of the source.\<close>

datatype 'c line =
    RunqoccCpu nat fval
  | Runqocc fval
  | CpuEq nat
  | LinearHist "'c list" nat string
  | Banner
  | Blank
  | Timestamp string

subsection \<open>print_runq_occupancy\<close>

text \<open>
  The inner loop \<^verbatim>\<open>for (slot = 0; slot < MAX_SLOTS; slot++)\<close>: slot 0 is added to
  \<^verbatim>\<open>idle\<close>, every other slot to \<^verbatim>\<open>queued\<close>; both are \<^verbatim>\<open>__u64\<close> and wrap.
\<close>

function slot_loop :: "nat \<Rightarrow> 'a::len word list \<Rightarrow> nat \<Rightarrow> u64 \<times> u64 \<Rightarrow> u64 \<times> u64" where
  "slot_loop ms sl slot (idle, queued) =
     (if slot < ms then
        (let val = (ucast (sl ! slot) :: u64) in
         if slot = 0 then slot_loop ms sl (Suc slot) (idle + val, queued)
         else slot_loop ms sl (Suc slot) (idle, queued + val))
      else (idle, queued))"
  by pat_completeness auto
termination
  by (relation "measure (\<lambda>(ms, sl, slot, acc). ms - slot)") auto

declare slot_loop.simps [simp del]

text \<open>
  One pass through the body of the \<^verbatim>\<open>do { ... } while\<close> at processor index \<open>i\<close>.
  \<^verbatim>\<open>idle\<close> and \<^verbatim>\<open>queued\<close> are declared outside the loop and initialised once, so they
  come in from the previous pass and go out to the next one.
\<close>

definition occ_body ::
  "header \<Rightarrow> env \<Rightarrow> nat \<Rightarrow> u64 \<times> u64 \<times> 'a::len word hist list
     \<Rightarrow> (u64 \<times> u64 \<times> 'a word hist list) \<times> 'a word line" where
  "occ_body H e i st =
     (case st of (idle, queued, hists) \<Rightarrow>
        (let hist = hists ! i;
             hists' = hists[i := zero_hist H];
             acc = slot_loop (MAX_SLOTS H) (slots hist) 0 (idle, queued);
             samples = fst acc + snd acc;
             occ = fdiv (snd acc) (max 1 samples)
         in ((fst acc, snd acc, hists'),
             (if per_cpu e then RunqoccCpu i (fscale 100 occ)
              else Runqocc (fscale 100 occ)))))"

function occ_loop ::
  "header \<Rightarrow> env \<Rightarrow> int \<Rightarrow> nat \<Rightarrow> u64 \<times> u64 \<times> 'a::len word hist list
     \<Rightarrow> 'a word line list \<Rightarrow> 'a word hist list \<times> 'a word line list" where
  "occ_loop H e nr_cpus i st out =
     (let r = occ_body H e i st in
      if per_cpu e \<and> int (Suc i) < nr_cpus
      then occ_loop H e nr_cpus (Suc i) (fst r) (out @ [snd r])
      else (snd (snd (fst r)), out @ [snd r]))"
  by pat_completeness auto
termination
  by (relation "measure (\<lambda>(H, e, nr_cpus, i, st, out). nat (nr_cpus - int i))") auto

declare occ_loop.simps [simp del]

definition print_runq_occupancy ::
  "header \<Rightarrow> env \<Rightarrow> int \<Rightarrow> 'a::len word hist list
     \<Rightarrow> 'a word hist list \<times> 'a word line list" where
  "print_runq_occupancy H e nr_cpus hists = occ_loop H e nr_cpus 0 (0, 0, hists) []"

subsection \<open>print_linear_hists\<close>

text \<open>
  \<^verbatim>\<open>print_linear_hist(hist.slots, MAX_SLOTS, "runqlen")\<close> is the external formatter: the
  model records its three arguments.
\<close>

definition lin_body ::
  "header \<Rightarrow> env \<Rightarrow> nat \<Rightarrow> 'a::len word hist list
     \<Rightarrow> 'a word hist list \<times> 'a word line list" where
  "lin_body H e i hists =
     (let hist = hists ! i;
          hists' = hists[i := zero_hist H]
      in (hists',
          (if per_cpu e then [CpuEq i] else []) @
          [LinearHist (slots hist) (MAX_SLOTS H) ''runqlen'']))"

function lin_loop ::
  "header \<Rightarrow> env \<Rightarrow> int \<Rightarrow> nat \<Rightarrow> 'a::len word hist list
     \<Rightarrow> 'a word line list \<Rightarrow> 'a word hist list \<times> 'a word line list" where
  "lin_loop H e nr_cpus i hists out =
     (let r = lin_body H e i hists in
      if per_cpu e \<and> int (Suc i) < nr_cpus
      then lin_loop H e nr_cpus (Suc i) (fst r) (out @ snd r)
      else (fst r, out @ snd r))"
  by pat_completeness auto
termination
  by (relation "measure (\<lambda>(H, e, nr_cpus, i, hists, out). nat (nr_cpus - int i))") auto

declare lin_loop.simps [simp del]

definition print_linear_hists ::
  "header \<Rightarrow> env \<Rightarrow> int \<Rightarrow> 'a::len word hist list
     \<Rightarrow> 'a word hist list \<times> 'a word line list" where
  "print_linear_hists H e nr_cpus hists = lin_loop H e nr_cpus 0 hists []"

text \<open>
  The reporter a tick invokes (\<^verbatim>\<open>main\<close>, lines 270--273):
  \<^verbatim>\<open>if (env.runqocc) print_runq_occupancy(obj->bss); else print_linear_hists(obj->bss);\<close>
\<close>

definition report ::
  "header \<Rightarrow> env \<Rightarrow> int \<Rightarrow> 'a::len word hist list
     \<Rightarrow> 'a word hist list \<times> 'a word line list" where
  "report H e nr_cpus hists =
     (if runqocc e then print_runq_occupancy H e nr_cpus hists
      else print_linear_hists H e nr_cpus hists)"

subsection \<open>The environment of the process\<close>

text \<open>
  What can go wrong in a run: \<^verbatim>\<open>links[i]\<close> read through a null \<^verbatim>\<open>links\<close>, and
  \<^verbatim>\<open>--env.times\<close> at \<^verbatim>\<open>INT_MIN\<close> (signed overflow, undefined in C).
\<close>

datatype fault = NullDeref | SignedOverflow

text \<open>The \<^verbatim>\<open>bpf_link\<close> attached for processor \<open>i\<close>; \<open>None\<close> is the null pointer.\<close>

datatype link = Link nat

text \<open>
  What the kernel answers for one processor: \<^verbatim>\<open>perf_event_open\<close> returns a negative fd,
  or \<^verbatim>\<open>bpf_program__attach_perf_event\<close> returns an error pointer, or both succeed.
\<close>

datatype attach_result = OpenFails | AttachFails | Attaches

text \<open>When SIGINT is delivered within one loop iteration, if at all.\<close>

datatype sig_arrival = NoSignal | InSleep | InReport

text \<open>The lines written to the error stream.\<close>

datatype diag =
    FailedRlimit int
  | FailedOpen
  | TooManyCpus
  | FailedAlloc
  | FailedLoad int
  | FailedPerfInit
  | FailedAttach nat

text \<open>
  The inputs of a run: the results of the library calls of \<^verbatim>\<open>main\<close>, in the order of
  the calls, and for iteration \<open>n\<close> of the loop the signal delivery, what the kernel
  sampler wrote into the table while the process slept, and the clock.
\<close>

record 'c world =
  rlimit_err :: int
  open_ok :: bool
  num_possible_cpus :: int
  calloc_ok :: bool
  load_err :: int
  perf :: "nat \<Rightarrow> attach_result"
  sigint :: "nat \<Rightarrow> sig_arrival"
  sampler :: "nat \<Rightarrow> 'c hist list \<Rightarrow> 'c hist list"
  clock :: "nat \<Rightarrow> string"

text \<open>
  The mutable state of the process inside the loop: the flag \<^verbatim>\<open>exiting\<close>, the global
  \<^verbatim>\<open>env\<close> (its \<^verbatim>\<open>times\<close> is decremented), \<^verbatim>\<open>obj->bss\<close>, the output stream, and the
  number of reports made so far (a counter of the model, not of the source).
\<close>

record 'c proc =
  exiting :: bool
  genv :: env
  bss :: "'c hist list"
  stdout :: "'c line list"
  ticks :: nat

text \<open>What a run leaves behind.\<close>

record 'c run =
  status :: "fault + int"
  stderr :: "diag list"
  printed :: "'c line list"
  destroyed :: "link list"
  reports :: nat

subsection \<open>open_and_attach_perf_event\<close>

function attach_loop ::
  "(nat \<Rightarrow> attach_result) \<Rightarrow> int \<Rightarrow> nat \<Rightarrow> link option list
     \<Rightarrow> int \<times> link option list \<times> diag list" where
  "attach_loop pf nr_cpus i links =
     (if int i < nr_cpus then
        (case pf i of
           OpenFails \<Rightarrow> (- 1, links, [FailedPerfInit])
         | AttachFails \<Rightarrow> (- 1, links[i := None], [FailedAttach i])
         | Attaches \<Rightarrow> attach_loop pf nr_cpus (Suc i) (links[i := Some (Link i)]))
      else (0, links, []))"
  by pat_completeness auto
termination
  by (relation "measure (\<lambda>(pf, nr_cpus, i, links). nat (nr_cpus - int i))") auto

declare attach_loop.simps [simp del]

definition open_and_attach_perf_event ::
  "(nat \<Rightarrow> attach_result) \<Rightarrow> int \<Rightarrow> link option list
     \<Rightarrow> int \<times> link option list \<times> diag list" where
  "open_and_attach_perf_event pf nr_cpus links = attach_loop pf nr_cpus 0 links"

subsection \<open>The signal handler\<close>

definition sig_handler :: "'c proc \<Rightarrow> 'c proc" where
  "sig_handler s = s\<lparr>exiting := True\<rparr>"

text \<open>The handler runs at the point of the iteration where the signal arrives.\<close>

definition deliver :: "sig_arrival \<Rightarrow> sig_arrival \<Rightarrow> 'c proc \<Rightarrow> 'c proc" where
  "deliver arrival phase s = (if arrival = phase then sig_handler s else s)"

subsection \<open>main\<close>

text \<open>
  The body of \<^verbatim>\<open>while (1)\<close> up to the report (lines 260--273). During
  \<^verbatim>\<open>sleep(env.interval)\<close> the sampler writes and a signal may cut the sleep short; a
  signal may also arrive while the report runs.
\<close>

definition tick ::
  "header \<Rightarrow> 'a::len word world \<Rightarrow> int \<Rightarrow> 'a word proc \<Rightarrow> 'a word proc" where
  "tick H w nr_cpus s =
     (let n = ticks s;
          s1 = deliver (sigint w n) InSleep (s\<lparr>bss := sampler w n (bss s)\<rparr>);
          s2 = s1\<lparr>stdout := stdout s1 @ [Blank]\<rparr>;
          s3 = (if timestamp (genv s2)
                then s2\<lparr>stdout := stdout s2 @ [Timestamp (clock w n)]\<rparr> else s2);
          r = report H (genv s3) nr_cpus (bss s3);
          s4 = s3\<lparr>bss := fst r, stdout := stdout s3 @ snd r, ticks := Suc n\<rparr>
      in deliver (sigint w n) InReport s4)"

definition INT_MIN :: "32 word" where
  "INT_MIN = 0x80000000"

text \<open>\<^verbatim>\<open>--env.times\<close>, for a value above \<^verbatim>\<open>INT_MIN\<close>.\<close>

definition decr_times :: "'c proc \<Rightarrow> 'c proc" where
  "decr_times s = s\<lparr>genv := (genv s)\<lparr>times_env := times_env (genv s) - 1\<rparr>\<rparr>"

text \<open>
  The loop with its exit test \<^verbatim>\<open>if (exiting || --env.times == 0) break;\<close>. The
  decrement is not evaluated when \<^verbatim>\<open>exiting\<close> is set; at \<^verbatim>\<open>INT_MIN\<close> it overflows.
\<close>

function main_loop ::
  "header \<Rightarrow> 'a::len word world \<Rightarrow> int \<Rightarrow> 'a word proc
     \<Rightarrow> fault option \<times> 'a word proc" where
  "main_loop H w nr_cpus s =
     (let s1 = tick H w nr_cpus s in
      if exiting s1 then (None, s1)
      else if times_env (genv s1) = INT_MIN then (Some SignedOverflow, s1)
      else
        (let s2 = decr_times s1 in
         if times_env (genv s2) = 0 then (None, s2)
         else main_loop H w nr_cpus s2))"
  by pat_completeness auto
termination
proof (relation "measure (\<lambda>(H, w, nr_cpus, s). unat (times_env (genv s) - INT_MIN))")
  show "wf (measure (\<lambda>(H, w, nr_cpus, s). unat (times_env (genv s) - INT_MIN)))"
    by simp
next
  fix H :: header and w :: "'a word world" and nr_cpus :: int
    and s s1 s2 :: "'a word proc"
  assume s1: "s1 = tick H w nr_cpus s"
    and ne: "times_env (genv s1) \<noteq> INT_MIN"
    and s2: "s2 = decr_times s1"
  have same: "genv s1 = genv s"
    by (simp add: s1 tick_def deliver_def sig_handler_def Let_def)
  have "times_env (genv s) - INT_MIN \<noteq> 0"
    using ne same by simp
  then have lt: "unat (times_env (genv s) - INT_MIN - 1) < unat (times_env (genv s) - INT_MIN)"
    by (rule measure_unat)
  have eq: "times_env (genv s2) - INT_MIN = times_env (genv s) - INT_MIN - 1"
    by (simp add: s2 same decr_times_def)
  show "((H, w, nr_cpus, s2), (H, w, nr_cpus, s))
      \<in> measure (\<lambda>(H, w, nr_cpus, s). unat (times_env (genv s) - INT_MIN))"
    unfolding in_measure prod.case eq by (rule lt)
qed

declare main_loop.simps [simp del]

text \<open>
  The label \<^verbatim>\<open>cleanup\<close>: \<^verbatim>\<open>for (i = 0; i < nr_cpus; i++) bpf_link__destroy(links[i]);\<close>.
  \<^verbatim>\<open>bpf_link__destroy\<close> does nothing for a null link.
\<close>

function destroy_loop :: "int \<Rightarrow> nat \<Rightarrow> link option list \<Rightarrow> link list \<Rightarrow> link list" where
  "destroy_loop nr_cpus i links d =
     (if int i < nr_cpus then
        destroy_loop nr_cpus (Suc i) links
          (case links ! i of None \<Rightarrow> d | Some l \<Rightarrow> d @ [l])
      else d)"
  by pat_completeness auto
termination
  by (relation "measure (\<lambda>(nr_cpus, i, links, d). nat (nr_cpus - int i))") auto

declare destroy_loop.simps [simp del]

text \<open>
  From \<^verbatim>\<open>cleanup\<close> to \<^verbatim>\<open>return err != 0\<close>. \<open>links = None\<close> is the null pointer that a
  failed \<^verbatim>\<open>calloc\<close> leaves: the loop reads through it as soon as \<^verbatim>\<open>0 < nr_cpus\<close>.
\<close>

definition cleanup ::
  "int \<Rightarrow> link option list option \<Rightarrow> int \<Rightarrow> diag list \<Rightarrow> 'c line list \<Rightarrow> nat \<Rightarrow> 'c run" where
  "cleanup nr_cpus links err ds out n =
     (case links of
        None \<Rightarrow>
          (if 0 < nr_cpus
           then \<lparr>status = Inl NullDeref, stderr = ds, printed = out, destroyed = [], reports = n\<rparr>
           else \<lparr>status = Inr (if err \<noteq> 0 then 1 else 0), stderr = ds, printed = out,
                  destroyed = [], reports = n\<rparr>)
      | Some ls \<Rightarrow>
          \<lparr>status = Inr (if err \<noteq> 0 then 1 else 0), stderr = ds, printed = out,
           destroyed = destroy_loop nr_cpus 0 ls [], reports = n\<rparr>)"

text \<open>The early \<^verbatim>\<open>return 1\<close> of \<^verbatim>\<open>main\<close>, before anything is allocated.\<close>

definition return1 :: "diag \<Rightarrow> 'c run" where
  "return1 d = \<lparr>status = Inr 1, stderr = [d], printed = [], destroyed = [], reports = 0\<rparr>"

text \<open>
  The state in which the loop is entered: \<^verbatim>\<open>exiting\<close> is clear, the table \<^verbatim>\<open>obj->bss\<close>
  is still zeroed, and the banner ``Sampling run queue length...'' has been printed.
\<close>

definition initial_proc :: "header \<Rightarrow> env \<Rightarrow> 'a::len word proc" where
  "initial_proc H e =
     \<lparr>exiting = False, genv = e, bss = replicate (MAX_CPU_NR H) (zero_hist H),
      stdout = [Banner], ticks = 0\<rparr>"

text \<open>
  \<^verbatim>\<open>main\<close> from \<^verbatim>\<open>bump_memlock_rlimit\<close> on (lines 219--285). \<^verbatim>\<open>err\<close> holds the result of
  \<^verbatim>\<open>bump_memlock_rlimit\<close> and then of \<^verbatim>\<open>runqlen_bpf__load\<close>, and nothing else is ever
  assigned to it.
\<close>

definition main :: "header \<Rightarrow> 'a::len word world \<Rightarrow> env \<Rightarrow> 'a word run" where
  "main H w e =
     (let err = rlimit_err w in
      if err \<noteq> 0 then return1 (FailedRlimit err)
      else if \<not> open_ok w then return1 FailedOpen
      else
        (let nr_cpus = num_possible_cpus w in
         if nr_cpus > int (MAX_CPU_NR H) then return1 TooManyCpus
         else if \<not> calloc_ok w then cleanup nr_cpus None err [FailedAlloc] [] 0
         else
           (let links = replicate (nat nr_cpus) None;
                err = load_err w in
            if err \<noteq> 0 then cleanup nr_cpus (Some links) err [FailedLoad err] [] 0
            else
              (case open_and_attach_perf_event (perf w) nr_cpus links of
                 (r, links', ds) \<Rightarrow>
                   if r \<noteq> 0 then cleanup nr_cpus (Some links') err ds [] 0
                   else
                     (case main_loop H w nr_cpus (initial_proc H e) of
                        (Some f, s) \<Rightarrow>
                          \<lparr>status = Inl f, stderr = [], printed = stdout s,
                           destroyed = [], reports = ticks s\<rparr>
                      | (None, s) \<Rightarrow>
                          cleanup nr_cpus (Some links') err [] (stdout s) (ticks s))))))"

subsection \<open>The count argument\<close>


subsection \<open>Notions used to state the properties\<close>

text \<open>
  The processor indices one call of a reporter passes through when its
  \<^verbatim>\<open>do { ... } while (env.per_cpu && ++i < nr_cpus)\<close> is entered at index \<open>i\<close>:
  \<open>i\<close> itself, and in per-processor mode every later index below \<^verbatim>\<open>nr_cpus\<close>.
\<close>

definition visited :: "env \<Rightarrow> int \<Rightarrow> nat \<Rightarrow> nat \<Rightarrow> bool" where
  "visited e nr_cpus i j = (j = i \<or> (per_cpu e \<and> i \<le> j \<and> int j < nr_cpus))"

text \<open>
  The spec's reading of one histogram: \<open>idle\<close> is the value of bucket 0 and \<open>queued\<close>
  the sum of all other buckets (as 64-bit values, like the accumulators of the code).
\<close>

definition buckets :: "'a::len word list \<Rightarrow> u64 \<times> u64" where
  "buckets sl = (case sl of [] \<Rightarrow> (0, 0) | b # bs \<Rightarrow> (ucast b, sum_list (map ucast bs)))"

text \<open>
  The spec's occupancy of one histogram: with \<open>samples = idle + queued\<close>, the percentage
  \<open>100 * queued / max(1, samples)\<close>.
\<close>

definition spec_occupancy :: "'a::len word hist \<Rightarrow> fval" where
  "spec_occupancy h =
     (let idle = fst (buckets (slots h));
          queued = snd (buckets (slots h));
          samples = idle + queued
      in fscale 100 (fdiv queued (max 1 samples)))"

text \<open>
  The spec's \<open>aggregate\<close>: the histogram whose bucket \<open>k\<close> is the sum across all input
  histograms' bucket \<open>k\<close>.
\<close>

definition spec_aggregate :: "header \<Rightarrow> 'a::len word hist list \<Rightarrow> 'a word hist" where
  "spec_aggregate H hists =
     \<lparr>slots = map (\<lambda>k. sum_list (map (\<lambda>h. slots h ! k) hists)) [0..<MAX_SLOTS H]\<rparr>"

text \<open>The percentage a line of output carries, if it is an occupancy line.\<close>

fun pct :: "'c line \<Rightarrow> fval option" where
  "pct (RunqoccCpu i v) = Some v"
| "pct (Runqocc v) = Some v"
| "pct l = None"

text \<open>A percentage is in range when it is a finite value between 0 and 100.\<close>

definition in_range :: "fval \<Rightarrow> bool" where
  "in_range v = (case v of Fin p \<Rightarrow> 0 \<le> p \<and> p \<le> 100 | NaN \<Rightarrow> False | Infty \<Rightarrow> False)"

text \<open>
  An output line is in order when it is an occupancy line whose value is in range.
\<close>

definition line_ok :: "'c line \<Rightarrow> bool" where
  "line_ok l = (case pct l of Some v \<Rightarrow> in_range v | None \<Rightarrow> False)"

text \<open>A histogram with all its mass in bucket 0: every other slot is 0.\<close>

definition only_idle :: "'a::len word hist \<Rightarrow> bool" where
  "only_idle h = list_all (\<lambda>v. v = 0) (tl (slots h))"

text \<open>A world in which no SIGINT is ever delivered.\<close>

definition no_signal :: "'c world \<Rightarrow> bool" where
  "no_signal w = (\<forall>n. sigint w n = NoSignal)"

text \<open>
  A world in which every step of \<^verbatim>\<open>main\<close> before the attachment loop succeeds:
  the resource limit, opening the object, the processor count, the allocation, the load.
\<close>

definition setup_ok :: "header \<Rightarrow> 'c world \<Rightarrow> bool" where
  "setup_ok H w =
     (rlimit_err w = 0 \<and> open_ok w \<and> num_possible_cpus w \<le> int (MAX_CPU_NR H) \<and>
      calloc_ok w \<and> load_err w = 0)"

subsection \<open>The scenario of the spec\<close>

text \<open>
  The worked example of the spec: two processors, four buckets, the histograms
  \<open>[[5,2,1,0],[0,0,0,3]]\<close>. The environment and the world are given by the fields the
  examples vary.
\<close>

definition scenario_header :: header where
  "scenario_header = \<lparr>MAX_SLOTS = 4, MAX_CPU_NR = 2\<rparr>"

definition scenario_table :: "32 word hist list" where
  "scenario_table = [\<lparr>slots = [5, 2, 1, 0]\<rparr>, \<lparr>slots = [0, 0, 0, 3]\<rparr>]"

definition scenario_env :: "bool \<Rightarrow> bool \<Rightarrow> 32 word \<Rightarrow> env" where
  "scenario_env pc occ k =
     \<lparr>per_cpu = pc, runqocc = occ, timestamp = False, interval = 1, times_env = k,
      verbose = False\<rparr>"

definition scenario_world ::
  "int \<Rightarrow> bool \<Rightarrow> (nat \<Rightarrow> attach_result) \<Rightarrow> (nat \<Rightarrow> sig_arrival) \<Rightarrow> 32 word world" where
  "scenario_world n ca pf sg =
     \<lparr>rlimit_err = 0, open_ok = True, num_possible_cpus = n, calloc_ok = ca, load_err = 0,
      perf = pf, sigint = sg, sampler = (\<lambda>n b. b), clock = (\<lambda>n. [])\<rparr>"

text \<open>A process state at the head of the loop, over the scenario's table.\<close>

definition scenario_proc :: "32 word \<Rightarrow> 32 word proc" where
  "scenario_proc k =
     \<lparr>exiting = False, genv = scenario_env False False k, bss = scenario_table,
      stdout = [], ticks = 0\<rparr>"

text \<open>A table of the scenario's shape in which every sample fell in bucket 0.\<close>

definition idle_table :: "32 word hist list" where
  "idle_table = [\<lparr>slots = [5, 0, 0, 0]\<rparr>, \<lparr>slots = [7, 0, 0, 0]\<rparr>]"

text \<open>
  Two tables of the scenario's shape for per-processor occupancy: a busy row followed by
  a row with all its mass in bucket 0, and a busy row followed by an empty row.
\<close>

definition busy_idle_table :: "32 word hist list" where
  "busy_idle_table = [\<lparr>slots = [5, 2, 1, 0]\<rparr>, \<lparr>slots = [7, 0, 0, 0]\<rparr>]"

definition busy_empty_table :: "32 word hist list" where
  "busy_empty_table = [\<lparr>slots = [5, 2, 1, 0]\<rparr>, \<lparr>slots = [0, 0, 0, 0]\<rparr>]"

section \<open>Properties\<close>

subsection \<open>The slot loop\<close>

lemma slot_loop_from:
  "1 \<le> k \<Longrightarrow>
   slot_loop ms sl k (a, q) = (a, q + sum_list (map (\<lambda>j. ucast (sl ! j)) [k..<ms]))"
proof (induction "ms - k" arbitrary: k q)
  case 0
  then have "\<not> k < ms" by simp
  then show ?case by (subst slot_loop.simps) simp
next
  case (Suc d)
  then have lt: "k < ms" and d: "d = ms - Suc k" by simp_all
  have "slot_loop ms sl k (a, q) = slot_loop ms sl (Suc k) (a, q + ucast (sl ! k))"
    using lt Suc.prems by (subst slot_loop.simps) (simp add: Let_def)
  also have "\<dots> = (a, q + ucast (sl ! k) + sum_list (map (\<lambda>j. ucast (sl ! j)) [Suc k..<ms]))"
    using d by (intro Suc.hyps) simp_all
  finally show ?case
    using lt by (simp add: upt_conv_Cons add.assoc)
qed

lemma slot_loop_zero_ms: "slot_loop 0 sl 0 (a, q) = (a, q)"
  by (subst slot_loop.simps) simp

lemma slot_loop_start:
  "0 < ms \<Longrightarrow>
   slot_loop ms sl 0 (a, q) =
     (a + ucast (sl ! 0), q + sum_list (map (\<lambda>j. ucast (sl ! j)) [1..<ms]))"
proof -
  assume "0 < ms"
  then have "slot_loop ms sl 0 (a, q) = slot_loop ms sl (Suc 0) (a + ucast (sl ! 0), q)"
    by (subst slot_loop.simps) (simp add: Let_def)
  then show ?thesis
    by (simp add: slot_loop_from)
qed

lemma map_nth_tl: "map (\<lambda>j. f (sl ! j)) [1..<length sl] = map f (tl sl)"
  by (rule nth_equalityI) (simp_all add: nth_tl del: upt_Suc)

lemma slot_loop_buckets:
  "length sl = ms \<Longrightarrow>
   slot_loop ms sl 0 (a, q) = (a + fst (buckets sl), q + snd (buckets sl))"
proof (cases sl)
  case Nil
  assume "length sl = ms"
  with Nil show ?thesis by (simp add: slot_loop_zero_ms buckets_def)
next
  case (Cons b bs)
  assume len: "length sl = ms"
  then have pos: "0 < ms" using Cons by auto
  have "map (\<lambda>j. (ucast (sl ! j) :: u64)) [1..<length sl] = map ucast (tl sl)"
    by (rule map_nth_tl)
  then show ?thesis
    using Cons len slot_loop_start [OF pos, of sl a q] by (simp add: buckets_def del: upt_Suc)
qed

subsection \<open>Sizes of the accumulators\<close>

lemma unat_ucast_le: "unat (ucast (x::'a::len word) :: u64) \<le> 2 ^ LENGTH('a) - 1"
proof -
  have "unat (ucast x :: u64) \<le> unat x"
    by (metis (mono_tags, lifting) le_unat_uoi linorder_linear of_nat_unat)
  moreover have "unat x < 2 ^ LENGTH('a)" by simp
  ultimately show ?thesis by linarith
qed

lemma unat_add_le: "unat (a + b :: u64) \<le> unat a + unat b"
  by (simp add: unat_word_ariths)

lemma unat_sum_list_le:
  "unat (sum_list (map ucast (bs :: 'a::len word list)) :: u64) \<le> length bs * (2 ^ LENGTH('a) - 1)"
proof (induction bs)
  case Nil
  then show ?case by simp
next
  case (Cons b bs)
  have "unat (ucast b + sum_list (map ucast bs) :: u64)
      \<le> unat (ucast b :: u64) + unat (sum_list (map ucast bs) :: u64)"
    by (rule unat_add_le)
  also have "\<dots> \<le> (2 ^ LENGTH('a) - 1) + length bs * (2 ^ LENGTH('a) - 1)"
    by (intro add_mono unat_ucast_le Cons.IH)
  finally show ?case by simp
qed

lemma buckets_bound:
  "unat (fst (buckets (sl :: 'a::len word list))) + unat (snd (buckets sl))
     \<le> length sl * (2 ^ LENGTH('a) - 1)"
proof (cases sl)
  case Nil
  then show ?thesis by (simp add: buckets_def)
next
  case (Cons b bs)
  have "unat (ucast b :: u64) + unat (sum_list (map ucast bs) :: u64)
      \<le> (2 ^ LENGTH('a) - 1) + length bs * (2 ^ LENGTH('a) - 1)"
    by (intro add_mono unat_ucast_le unat_sum_list_le)
  then show ?thesis using Cons by (simp add: buckets_def)
qed

subsection \<open>The quotient\<close>

lemma max_one_ne0: "max 1 (s::u64) \<noteq> 0"
  by (auto simp add: max_def word_le_nat_alt)

lemma ratio_le_one: "m \<le> n \<Longrightarrow> 0 < n \<Longrightarrow> (of_nat m :: rat) / of_nat n \<le> 1"
  by (simp add: divide_le_eq_1)

lemma in_range_scaled: "0 \<le> r \<Longrightarrow> r \<le> 1 \<Longrightarrow> in_range (fscale 100 (Fin r))"
  by (simp add: in_range_def)

lemma occ_in_range:
  assumes "unat a + unat q < 2 ^ 64"
  shows "in_range (fscale 100 (fdiv q (max 1 (a + q))))"
proof -
  have sum: "unat (a + q) = unat a + unat q"
    using assms unat_add_lem [of a q] by simp
  have "a + q \<le> max 1 (a + q)" by simp
  then have "unat (a + q) \<le> unat (max 1 (a + q))"
    by (simp add: word_le_nat_alt)
  then have le: "unat q \<le> unat (max 1 (a + q))"
    using sum by simp
  have pos: "0 < unat (max 1 (a + q))"
    using max_one_ne0 [of "a + q"] by (simp add: unat_gt_0)
  have eq: "fdiv q (max 1 (a + q)) = Fin (of_nat (unat q) / of_nat (unat (max 1 (a + q))))"
    using max_one_ne0 [of "a + q"] by (simp add: fdiv_def)
  show ?thesis
    unfolding eq
  proof (rule in_range_scaled)
    show "0 \<le> (of_nat (unat q) :: rat) / of_nat (unat (max 1 (a + q)))"
      by (intro divide_nonneg_nonneg of_nat_0_le_iff)
    show "(of_nat (unat q) :: rat) / of_nat (unat (max 1 (a + q))) \<le> 1"
      by (rule ratio_le_one [OF le pos])
  qed
qed

lemma occ_zero: "fscale 100 (fdiv 0 (max 1 s)) = Fin 0"
  using max_one_ne0 [of s] by (simp add: fdiv_def)

subsection \<open>The two reporter loops, one pass at a time\<close>

lemma lin_loop_step:
  "per_cpu e \<Longrightarrow> int (Suc i) < n \<Longrightarrow>
   lin_loop H e n i hs out =
     lin_loop H e n (Suc i) (hs[i := zero_hist H]) (out @ snd (lin_body H e i hs))"
  by (subst lin_loop.simps) (simp add: Let_def lin_body_def)

lemma lin_loop_last:
  "\<not> (per_cpu e \<and> int (Suc i) < n) \<Longrightarrow>
   lin_loop H e n i hs out = (hs[i := zero_hist H], out @ snd (lin_body H e i hs))"
  by (subst lin_loop.simps) (auto simp add: Let_def lin_body_def)

lemma occ_body_table: "snd (snd (fst (occ_body H e i (a, q, hs)))) = hs[i := zero_hist H]"
  by (simp add: occ_body_def Let_def)

lemma occ_loop_step:
  "per_cpu e \<Longrightarrow> int (Suc i) < n \<Longrightarrow>
   occ_loop H e n i st out =
     occ_loop H e n (Suc i) (fst (occ_body H e i st)) (out @ [snd (occ_body H e i st)])"
  by (subst occ_loop.simps) (simp add: Let_def)

lemma occ_loop_last:
  "\<not> (per_cpu e \<and> int (Suc i) < n) \<Longrightarrow>
   occ_loop H e n i st out =
     (snd (snd (fst (occ_body H e i st))), out @ [snd (occ_body H e i st)])"
  by (subst occ_loop.simps) (auto simp add: Let_def)

subsection \<open>The table after a report\<close>

lemma lin_loop_nth:
  "j < length hs \<Longrightarrow>
   fst (lin_loop H e n i hs out) ! j = (if visited e n i j then zero_hist H else hs ! j)"
proof (induction H e n i hs out rule: lin_loop.induct)
  case (1 H e n i hs out)
  show ?case
  proof (cases "per_cpu e \<and> int (Suc i) < n")
    case True
    then have unf: "lin_loop H e n i hs out =
        lin_loop H e n (Suc i) (hs[i := zero_hist H]) (out @ snd (lin_body H e i hs))"
      by (simp add: lin_loop_step)
    have IH: "fst (lin_loop H e n (Suc i) (hs[i := zero_hist H]) (out @ snd (lin_body H e i hs))) ! j
        = (if visited e n (Suc i) j then zero_hist H else hs[i := zero_hist H] ! j)"
      using "1.IH" [of "lin_body H e i hs"] True "1.prems"
      by (simp add: lin_body_def Let_def)
    show ?thesis
      using True "1.prems" unfolding unf IH
      by (auto simp add: visited_def nth_list_update)
  next
    case False
    then have "lin_loop H e n i hs out = (hs[i := zero_hist H], out @ snd (lin_body H e i hs))"
      by (rule lin_loop_last)
    then show ?thesis
      using False "1.prems" by (auto simp add: visited_def nth_list_update)
  qed
qed

lemma lin_loop_length: "length (fst (lin_loop H e n i hs out)) = length hs"
proof (induction H e n i hs out rule: lin_loop.induct)
  case (1 H e n i hs out)
  show ?case
  proof (cases "per_cpu e \<and> int (Suc i) < n")
    case True
    then have unf: "lin_loop H e n i hs out =
        lin_loop H e n (Suc i) (hs[i := zero_hist H]) (out @ snd (lin_body H e i hs))"
      by (simp add: lin_loop_step)
    have "length (fst (lin_loop H e n (Suc i) (hs[i := zero_hist H]) (out @ snd (lin_body H e i hs))))
        = length (hs[i := zero_hist H])"
      using "1.IH" [of "lin_body H e i hs"] True by (simp add: lin_body_def Let_def)
    then show ?thesis unfolding unf by simp
  next
    case False
    then show ?thesis by (simp add: lin_loop_last)
  qed
qed

lemma occ_loop_nth:
  "j < length hs \<Longrightarrow>
   fst (occ_loop H e n i (a, q, hs) out) ! j = (if visited e n i j then zero_hist H else hs ! j)"
proof (induction H e n i "(a, q, hs)" out arbitrary: a q hs rule: occ_loop.induct)
  case (1 H e n i out)
  obtain a' q' where body: "fst (occ_body H e i (a, q, hs)) = (a', q', hs[i := zero_hist H])"
    by (simp add: occ_body_def Let_def)
  show ?case
  proof (cases "per_cpu e \<and> int (Suc i) < n")
    case True
    then have unf: "occ_loop H e n i (a, q, hs) out =
        occ_loop H e n (Suc i) (a', q', hs[i := zero_hist H]) (out @ [snd (occ_body H e i (a, q, hs))])"
      using body by (simp add: occ_loop_step)
    have IH: "fst (occ_loop H e n (Suc i) (a', q', hs[i := zero_hist H])
                 (out @ [snd (occ_body H e i (a, q, hs))])) ! j
        = (if visited e n (Suc i) j then zero_hist H else hs[i := zero_hist H] ! j)"
      using "1.hyps" [of "occ_body H e i (a, q, hs)" a' q' "hs[i := zero_hist H]"] True "1.prems" body
      by simp
    show ?thesis
      using True "1.prems" unfolding unf IH
      by (auto simp add: visited_def nth_list_update)
  next
    case False
    then have "occ_loop H e n i (a, q, hs) out =
        (hs[i := zero_hist H], out @ [snd (occ_body H e i (a, q, hs))])"
      by (simp add: occ_loop_last occ_body_table)
    then show ?thesis
      using False "1.prems" by (auto simp add: visited_def nth_list_update)
  qed
qed

lemma occ_loop_length: "length (fst (occ_loop H e n i (a, q, hs) out)) = length hs"
proof (induction H e n i "(a, q, hs)" out arbitrary: a q hs rule: occ_loop.induct)
  case (1 H e n i out)
  obtain a' q' where body: "fst (occ_body H e i (a, q, hs)) = (a', q', hs[i := zero_hist H])"
    by (simp add: occ_body_def Let_def)
  show ?case
  proof (cases "per_cpu e \<and> int (Suc i) < n")
    case True
    then have unf: "occ_loop H e n i (a, q, hs) out =
        occ_loop H e n (Suc i) (a', q', hs[i := zero_hist H]) (out @ [snd (occ_body H e i (a, q, hs))])"
      using body by (simp add: occ_loop_step)
    have "length (fst (occ_loop H e n (Suc i) (a', q', hs[i := zero_hist H])
                 (out @ [snd (occ_body H e i (a, q, hs))]))) = length (hs[i := zero_hist H])"
      using "1.hyps" [of "occ_body H e i (a, q, hs)" a' q' "hs[i := zero_hist H]"] True body
      by simp
    then show ?thesis unfolding unf by simp
  next
    case False
    then show ?thesis by (simp add: occ_loop_last occ_body_table)
  qed
qed

lemma report_nth:
  "j < length hs \<Longrightarrow>
   fst (report H e n hs) ! j = (if visited e n 0 j then zero_hist H else hs ! j)"
  by (simp add: report_def print_runq_occupancy_def print_linear_hists_def
      occ_loop_nth lin_loop_nth)

lemma report_length: "length (fst (report H e n hs)) = length hs"
  by (simp add: report_def print_runq_occupancy_def print_linear_hists_def
      occ_loop_length lin_loop_length)

lemma occ_body_row:
  "wf_hist H (hs ! i) \<Longrightarrow>
   occ_body H e i (0, 0, hs) =
     ((fst (buckets (slots (hs ! i))), snd (buckets (slots (hs ! i))), hs[i := zero_hist H]),
      (if per_cpu e then RunqoccCpu i (spec_occupancy (hs ! i))
       else Runqocc (spec_occupancy (hs ! i))))"
  by (simp add: occ_body_def wf_hist_def slot_loop_buckets spec_occupancy_def Let_def)

lemma report_aggregate:
  assumes "\<not> per_cpu e" and "wf_hist H (hs ! 0)"
  shows "report H e n hs =
           (hs[0 := zero_hist H],
            [if runqocc e then Runqocc (spec_occupancy (hs ! 0))
             else LinearHist (slots (hs ! 0)) (MAX_SLOTS H) ''runqlen''])"
  using assms
  by (simp add: report_def print_runq_occupancy_def print_linear_hists_def
      occ_loop_last lin_loop_last occ_body_row lin_body_def Let_def)

lemma report_aggregate_reads_row0:
  assumes "\<not> per_cpu e" and "hs2 ! 0 = hs ! 0"
  shows "snd (report H e n hs2) = snd (report H e n hs)"
  using assms
  by (simp add: report_def print_runq_occupancy_def print_linear_hists_def
      occ_loop_last lin_loop_last occ_body_def lin_body_def Let_def)

lemma wf_table_row: "wf_table H hs \<Longrightarrow> i < MAX_CPU_NR H \<Longrightarrow> wf_hist H (hs ! i)"
  by (simp add: wf_table_def list_all_length)

lemma scenario_wf: "wf_table scenario_header scenario_table"
  by (simp add: wf_table_def wf_hist_def scenario_header_def scenario_table_def)

lemma scenario_zero: "zero_hist scenario_header = \<lparr>slots = [0, 0, 0, 0]\<rparr>"
  by (simp add: zero_hist_def scenario_header_def eval_nat_numeral)

subsection \<open>The occupancy loop\<close>

lemma occ_body_acc:
  "wf_hist H (hs ! i) \<Longrightarrow>
   occ_body H e i (a, q, hs) =
     ((a + fst (buckets (slots (hs ! i))), q + snd (buckets (slots (hs ! i))),
       hs[i := zero_hist H]),
      (if per_cpu e
       then RunqoccCpu i (fscale 100 (fdiv (q + snd (buckets (slots (hs ! i))))
              (max 1 (a + fst (buckets (slots (hs ! i))) + (q + snd (buckets (slots (hs ! i))))))))
       else Runqocc (fscale 100 (fdiv (q + snd (buckets (slots (hs ! i))))
              (max 1 (a + fst (buckets (slots (hs ! i))) + (q + snd (buckets (slots (hs ! i))))))))))"
  by (simp add: occ_body_def wf_hist_def slot_loop_buckets Let_def)

lemma wf_hist_zero: "wf_hist H (zero_hist H)"
  by (simp add: wf_hist_def zero_hist_def)

lemma list_all_update:
  assumes "list_all P xs" and "P y"
  shows "list_all P (xs[i := y])"
proof (cases "i < length xs")
  case True
  with assms show ?thesis by (auto simp add: list_all_length nth_list_update)
next
  case False
  then have "xs[i := y] = xs" by (simp add: list_update_beyond)
  with assms show ?thesis by simp
qed

lemma occ_loop_in_range:
  fixes hs :: "'a::len word hist list"
  assumes "list_all line_ok out"
    and "unat a + unat q \<le> i * (MAX_SLOTS H * (2 ^ LENGTH('a) - 1))"
    and "list_all (wf_hist H) hs"
    and "i < length hs"
    and "n \<le> int (length hs)"
    and "length hs * (MAX_SLOTS H * (2 ^ LENGTH('a) - 1)) < 2 ^ 64"
  shows "list_all line_ok (snd (occ_loop H e n i (a, q, hs) out))"
  using assms
proof (induction H e n i "(a, q, hs)" out arbitrary: a q hs rule: occ_loop.induct)
  case (1 H e n i out)
  let ?M = "MAX_SLOTS H * (2 ^ LENGTH('a) - 1)"
  let ?b = "buckets (slots (hs ! i))"
  let ?a = "a + fst ?b"
  let ?q = "q + snd ?b"
  let ?l = "snd (occ_body H e i (a, q, hs))"
  have wf: "wf_hist H (hs ! i)"
    using "1.prems"(3,4) by (simp add: list_all_length)
  then have len: "length (slots (hs ! i)) = MAX_SLOTS H"
    by (simp add: wf_hist_def)
  have body: "fst (occ_body H e i (a, q, hs)) = (?a, ?q, hs[i := zero_hist H])"
    using wf by (simp add: occ_body_acc)
  have "unat ?a + unat ?q \<le> (unat a + unat (fst ?b)) + (unat q + unat (snd ?b))"
    by (intro add_mono unat_add_le)
  also have "\<dots> = (unat a + unat q) + (unat (fst ?b) + unat (snd ?b))"
    by simp
  also have "\<dots> \<le> i * ?M + ?M"
    using "1.prems"(2) buckets_bound [of "slots (hs ! i)"] len by (intro add_mono) simp_all
  finally have acc: "unat ?a + unat ?q \<le> Suc i * ?M"
    by simp
  have "Suc i * ?M \<le> length hs * ?M"
    using "1.prems"(4) by (intro mult_le_mono1) simp
  then have small: "unat ?a + unat ?q < 2 ^ 64"
    using acc "1.prems"(6) by linarith
  have ok: "line_ok ?l"
    using wf occ_in_range [OF small] by (simp add: occ_body_acc line_ok_def)
  then have out': "list_all line_ok (out @ [?l])"
    using "1.prems"(1) by simp
  show ?case
  proof (cases "per_cpu e \<and> int (Suc i) < n")
    case True
    then have unf: "occ_loop H e n i (a, q, hs) out =
        occ_loop H e n (Suc i) (?a, ?q, hs[i := zero_hist H]) (out @ [?l])"
      using body by (simp add: occ_loop_step)
    have "list_all line_ok (snd (occ_loop H e n (Suc i) (?a, ?q, hs[i := zero_hist H]) (out @ [?l])))"
    proof (rule "1.hyps" [of "occ_body H e i (a, q, hs)"])
      show "per_cpu e \<and> int (Suc i) < n" by (rule True)
      show "fst (occ_body H e i (a, q, hs)) = (?a, ?q, hs[i := zero_hist H])" by (rule body)
      show "list_all line_ok (out @ [?l])" by (rule out')
      show "unat ?a + unat ?q \<le> Suc i * ?M" by (rule acc)
      show "list_all (wf_hist H) (hs[i := zero_hist H])"
        using "1.prems"(3) wf_hist_zero by (rule list_all_update)
      show "Suc i < length (hs[i := zero_hist H])"
        using True "1.prems"(5) by simp
      show "n \<le> int (length (hs[i := zero_hist H]))"
        using "1.prems"(5) by simp
      show "length (hs[i := zero_hist H]) * ?M < 2 ^ 64"
        using "1.prems"(6) by simp
    qed simp
    then show ?thesis unfolding unf .
  next
    case False
    then have "snd (occ_loop H e n i (a, q, hs) out) = out @ [?l]"
      by (simp add: occ_loop_last)
    then show ?thesis using out' by simp
  qed
qed

lemma sum_list_zero: "list_all (\<lambda>v. v = 0) bs \<Longrightarrow> sum_list (map ucast bs) = (0 :: u64)"
  by (induction bs) simp_all

lemma only_idle_queued: "only_idle h \<Longrightarrow> snd (buckets (slots h)) = 0"
  by (cases "slots h") (simp_all add: only_idle_def buckets_def sum_list_zero)

lemma occ_loop_all_idle:
  fixes hs :: "'a::len word hist list"
  assumes "list_all (\<lambda>l. pct l = Some (Fin 0)) out"
    and "list_all (wf_hist H) hs"
    and "i < length hs"
    and "n \<le> int (length hs)"
    and "\<forall>j. visited e n i j \<longrightarrow> only_idle (hs ! j)"
  shows "list_all (\<lambda>l. pct l = Some (Fin 0)) (snd (occ_loop H e n i (a, 0, hs) out))"
  using assms
proof (induction H e n i "(a, 0 :: u64, hs)" out arbitrary: a hs rule: occ_loop.induct)
  case (1 H e n i out)
  let ?b = "buckets (slots (hs ! i))"
  let ?l = "snd (occ_body H e i (a, 0, hs))"
  have wf: "wf_hist H (hs ! i)"
    using "1.prems"(2,3) by (simp add: list_all_length)
  have "only_idle (hs ! i)"
    using "1.prems"(5) by (simp add: visited_def)
  then have q0: "snd ?b = 0"
    by (rule only_idle_queued)
  have body: "fst (occ_body H e i (a, 0, hs)) = (a + fst ?b, 0, hs[i := zero_hist H])"
    using wf q0 by (simp add: occ_body_acc)
  have "pct ?l = Some (Fin 0)"
    using wf q0 by (simp add: occ_body_acc occ_zero)
  then have out': "list_all (\<lambda>l. pct l = Some (Fin 0)) (out @ [?l])"
    using "1.prems"(1) by simp
  show ?case
  proof (cases "per_cpu e \<and> int (Suc i) < n")
    case True
    then have unf: "occ_loop H e n i (a, 0, hs) out =
        occ_loop H e n (Suc i) (a + fst ?b, 0, hs[i := zero_hist H]) (out @ [?l])"
      using body by (simp add: occ_loop_step)
    have "list_all (\<lambda>l. pct l = Some (Fin 0))
        (snd (occ_loop H e n (Suc i) (a + fst ?b, 0, hs[i := zero_hist H]) (out @ [?l])))"
    proof (rule "1.hyps" [of "occ_body H e i (a, 0, hs)"])
      show "per_cpu e \<and> int (Suc i) < n" by (rule True)
      show "fst (occ_body H e i (a, 0, hs)) = (a + fst ?b, 0, hs[i := zero_hist H])" by (rule body)
      show "list_all (\<lambda>l. pct l = Some (Fin 0)) (out @ [?l])" by (rule out')
      show "list_all (wf_hist H) (hs[i := zero_hist H])"
        using "1.prems"(2) wf_hist_zero by (rule list_all_update)
      show "Suc i < length (hs[i := zero_hist H])"
        using True "1.prems"(4) by simp
      show "n \<le> int (length (hs[i := zero_hist H]))"
        using "1.prems"(4) by simp
      show "\<forall>j. visited e n (Suc i) j \<longrightarrow> only_idle (hs[i := zero_hist H] ! j)"
        using "1.prems"(5) True by (auto simp add: visited_def)
    qed simp
    then show ?thesis unfolding unf .
  next
    case False
    then have "snd (occ_loop H e n i (a, 0, hs) out) = out @ [?l]"
      by (simp add: occ_loop_last)
    then show ?thesis using out' by simp
  qed
qed

lemma all_zero_only_idle: "list_all (\<lambda>v. v = 0) (slots h) \<Longrightarrow> only_idle h"
  by (cases "slots h") (simp_all add: only_idle_def)

lemma idle_table_wf: "wf_table scenario_header idle_table"
  by (simp add: wf_table_def wf_hist_def scenario_header_def idle_table_def)

lemma scenario_bound:
  "MAX_CPU_NR scenario_header * (MAX_SLOTS scenario_header * (2 ^ LENGTH(32) - 1)) < 2 ^ 64"
  by (simp add: scenario_header_def)

subsection \<open>Reading the budget as a signed value\<close>

lemma sint_shift: "sint (t::32 word) = (uint t + 2 ^ 31) mod 2 ^ 32 - 2 ^ 31"
proof -
  have "sint t = signed_take_bit 31 (uint t)"
    by (simp add: sint_uint)
  also have "\<dots> = take_bit (Suc 31) (uint t + 2 ^ 31) - 2 ^ 31"
    by (rule signed_take_bit_eq_take_bit_shift)
  also have "take_bit (Suc 31) (uint t + 2 ^ 31) = (uint t + 2 ^ 31) mod 2 ^ Suc 31"
    by (rule take_bit_eq_mod)
  finally show ?thesis by simp
qed

lemma shift_low: "0 \<le> (u::int) \<Longrightarrow> u < 2 ^ 31 \<Longrightarrow> (u + 2 ^ 31) mod 2 ^ 32 - 2 ^ 31 = u"
  by (simp add: mod_pos_pos_trivial)

lemma shift_high: "2 ^ 31 \<le> (u::int) \<Longrightarrow> u < 2 ^ 32 \<Longrightarrow> (u + 2 ^ 31) mod 2 ^ 32 - 2 ^ 31 = u - 2 ^ 32"
proof -
  assume a: "2 ^ 31 \<le> u" and b: "u < 2 ^ 32"
  have "(u + 2 ^ 31) mod 2 ^ 32 = (u - 2 ^ 31 + 2 ^ 32) mod 2 ^ 32"
    by (simp add: algebra_simps)
  also have "\<dots> = (u - 2 ^ 31) mod 2 ^ 32"
    by (simp only: mod_add_self2)
  also have "\<dots> = u - 2 ^ 31"
    using a b by (simp add: mod_pos_pos_trivial)
  finally show ?thesis by simp
qed


lemma sint_cases:
  fixes t :: "32 word"
  obtains m where "unat t = m" and "m < 2 ^ 31" and "sint t = int m"
  | m where "unat t = m" and "2 ^ 31 \<le> m" and "m < 2 ^ 32" and "sint t = int m - 2 ^ 32"
proof -
  define u where "u = uint t"
  define m where "m = unat t"
  have u0: "0 \<le> u" and u1: "u < 2 ^ 32"
    using uint_bounded [of t] by (simp_all add: u_def)
  have s: "sint t = (u + 2 ^ 31) mod 2 ^ 32 - 2 ^ 31"
    unfolding u_def by (rule sint_shift)
  have n: "u = int m"
    by (simp add: u_def m_def)
  have tm: "unat t = m"
    by (simp add: m_def)
  show thesis
  proof (cases "u < 2 ^ 31")
    case True
    then have "sint t = int m" using u0 s shift_low [of u] n by simp
    moreover have "m < 2 ^ 31" using True n by simp
    ultimately show thesis using tm that(1) by blast
  next
    case False
    then have "sint t = int m - 2 ^ 32" using u1 s shift_high [of u] n by simp
    moreover have "2 ^ 31 \<le> m" "m < 2 ^ 32" using False u1 n by simp_all
    ultimately show thesis using tm that(2) by blast
  qed
qed

lemma positive_budget:
  assumes "0 < sint (t::32 word)"
  shows "0 < unat t \<and> unat t < 2 ^ 31 \<and> nat (sint t) = unat t"
proof (rule sint_cases [of t])
  fix m
  assume "unat t = m" and "m < 2 ^ 31" and "sint t = int m"
  with assms show ?thesis by simp
next
  fix m
  assume "unat t = m" and "2 ^ 31 \<le> m" and "m < 2 ^ 32" and "sint t = int m - 2 ^ 32"
  with assms show ?thesis by simp
qed

lemma unat_INT_MIN: "unat INT_MIN = 2 ^ 31"
  by (simp add: INT_MIN_def)

lemma unat_minus_INT_MIN:
  "unat (t - INT_MIN) = (if unat t < 2 ^ 31 then unat t + 2 ^ 31 else unat t - 2 ^ 31)"
  using unat_sub_if_size [of t INT_MIN] by (simp add: unat_INT_MIN word_size)

lemma nonpositive_budget:
  assumes "sint (t::32 word) \<le> 0"
  shows "unat (t - INT_MIN) \<le> 2 ^ 31 \<and> int (unat (t - INT_MIN)) = sint t + 2 ^ 31"
proof (rule sint_cases [of t])
  fix m
  assume "unat t = m" and "m < 2 ^ 31" and "sint t = int m"
  with assms show ?thesis by (simp add: unat_minus_INT_MIN)
next
  fix m
  assume "unat t = m" and "2 ^ 31 \<le> m" and "m < 2 ^ 32" and "sint t = int m - 2 ^ 32"
  with assms show ?thesis by (simp add: unat_minus_INT_MIN)
qed

lemma positive_budget_converse:
  assumes "0 < unat (t::32 word)" and "unat t < 2 ^ 31"
  shows "0 < sint t"
proof (rule sint_cases [of t])
  fix m
  assume "unat t = m" and "m < 2 ^ 31" and "sint t = int m"
  with assms show ?thesis by simp
next
  fix m
  assume "unat t = m" and "2 ^ 31 \<le> m" and "m < 2 ^ 32" and "sint t = int m - 2 ^ 32"
  with assms show ?thesis by simp
qed

subsection \<open>The loop of main, one iteration at a time\<close>

lemma tick_genv: "genv (tick H w n s) = genv s"
  by (simp add: tick_def deliver_def sig_handler_def Let_def)

lemma tick_ticks: "ticks (tick H w n s) = Suc (ticks s)"
  by (simp add: tick_def deliver_def sig_handler_def Let_def)

lemma tick_exiting:
  "exiting (tick H w n s) = (exiting s \<or> sigint w (ticks s) \<noteq> NoSignal)"
  by (cases "sigint w (ticks s)") (simp_all add: tick_def deliver_def sig_handler_def Let_def)

lemma tick_bss:
  "bss (tick H w n s) = fst (report H (genv s) n (sampler w (ticks s) (bss s)))"
  by (simp add: tick_def deliver_def sig_handler_def Let_def)

lemma tick_stdout:
  "stdout (tick H w n s) =
     stdout s @ [Blank] @ (if timestamp (genv s) then [Timestamp (clock w (ticks s))] else []) @
     snd (report H (genv s) n (sampler w (ticks s) (bss s)))"
  by (simp add: tick_def deliver_def sig_handler_def Let_def)

lemma decr_times_fields:
  "exiting (decr_times s) = exiting s" "ticks (decr_times s) = ticks s"
  "bss (decr_times s) = bss s" "stdout (decr_times s) = stdout s"
  "times_env (genv (decr_times s)) = times_env (genv s) - 1"
  by (simp_all add: decr_times_def)

lemma main_loop_stop:
  "exiting (tick H w n s) \<Longrightarrow> main_loop H w n s = (None, tick H w n s)"
  by (subst main_loop.simps) (simp add: Let_def)

lemma main_loop_overflow:
  "\<not> exiting (tick H w n s) \<Longrightarrow> times_env (genv s) = INT_MIN \<Longrightarrow>
   main_loop H w n s = (Some SignedOverflow, tick H w n s)"
  by (subst main_loop.simps) (simp add: Let_def tick_genv)

lemma main_loop_exhausted:
  "\<not> exiting (tick H w n s) \<Longrightarrow> times_env (genv s) = 1 \<Longrightarrow>
   main_loop H w n s = (None, decr_times (tick H w n s))"
  by (subst main_loop.simps) (simp add: Let_def tick_genv decr_times_fields INT_MIN_def)

lemma main_loop_continue:
  "\<not> exiting (tick H w n s) \<Longrightarrow> times_env (genv s) \<noteq> INT_MIN \<Longrightarrow>
   times_env (genv s) \<noteq> 1 \<Longrightarrow>
   main_loop H w n s = main_loop H w n (decr_times (tick H w n s))"
  by (subst main_loop.simps) (simp add: Let_def tick_genv decr_times_fields)

lemma main_loop_positive:
  assumes "no_signal w" and "\<not> exiting s"
    and "unat (times_env (genv s)) = Suc m" and "Suc m < 2 ^ 31"
  shows "\<exists>s'. main_loop H w n s = (None, s') \<and> ticks s' = ticks s + Suc m \<and> \<not> exiting s'"
  using assms(2-)
proof (induction m arbitrary: s)
  case 0
  have quiet: "\<not> exiting (tick H w n s)"
    using assms(1) "0.prems"(1) by (simp add: tick_exiting no_signal_def)
  have "unat (times_env (genv s)) = unat (1 :: 32 word)"
    using "0.prems"(2) by simp
  then have "times_env (genv s) = 1"
    by (simp only: word_unat_eq_iff)
  then have "main_loop H w n s = (None, decr_times (tick H w n s))"
    using quiet by (simp add: main_loop_exhausted)
  then show ?case
    using quiet by (simp add: decr_times_fields tick_ticks)
next
  case (Suc m)
  let ?t = "times_env (genv s)"
  let ?s = "decr_times (tick H w n s)"
  have quiet: "\<not> exiting (tick H w n s)"
    using assms(1) Suc.prems(1) by (simp add: tick_exiting no_signal_def)
  have ne_min: "?t \<noteq> INT_MIN"
    using Suc.prems(2,3) unat_INT_MIN by auto
  have ne_one: "?t \<noteq> 1"
    using Suc.prems(2) by auto
  have ne_zero: "?t \<noteq> 0"
    using Suc.prems(2) by auto
  have unf: "main_loop H w n s = main_loop H w n ?s"
    using quiet ne_min ne_one by (rule main_loop_continue)
  have "unat (?t - 1) = unat ?t - 1"
    using ne_zero by (rule unat_minus_one)
  then have left: "unat (times_env (genv ?s)) = Suc m"
    using Suc.prems(2) by (simp add: decr_times_fields tick_genv)
  have "\<exists>s'. main_loop H w n ?s = (None, s') \<and> ticks s' = ticks ?s + Suc m \<and> \<not> exiting s'"
    using quiet left Suc.prems(3) by (intro Suc.IH) (simp_all add: decr_times_fields)
  then show ?case
    unfolding unf by (auto simp add: decr_times_fields tick_ticks)
qed

lemma main_loop_nonpositive:
  assumes "no_signal w" and "\<not> exiting s"
    and "unat (times_env (genv s) - INT_MIN) = d" and "d \<le> 2 ^ 31"
  shows "\<exists>s'. main_loop H w n s = (Some SignedOverflow, s') \<and> ticks s' = ticks s + Suc d"
  using assms(2-)
proof (induction d arbitrary: s)
  case 0
  have quiet: "\<not> exiting (tick H w n s)"
    using assms(1) "0.prems"(1) by (simp add: tick_exiting no_signal_def)
  have "times_env (genv s) - INT_MIN = 0"
    using "0.prems"(2) by (simp add: unat_eq_0)
  then have "times_env (genv s) = INT_MIN" by simp
  then have "main_loop H w n s = (Some SignedOverflow, tick H w n s)"
    using quiet by (simp add: main_loop_overflow)
  then show ?case by (simp add: tick_ticks)
next
  case (Suc d)
  let ?t = "times_env (genv s)"
  let ?s = "decr_times (tick H w n s)"
  have quiet: "\<not> exiting (tick H w n s)"
    using assms(1) Suc.prems(1) by (simp add: tick_exiting no_signal_def)
  have ne_min: "?t \<noteq> INT_MIN"
    using Suc.prems(2) by auto
  have "unat (1 - INT_MIN) = 2 ^ 31 + 1"
    by (simp add: INT_MIN_def)
  then have ne_one: "?t \<noteq> 1"
    using Suc.prems(2,3) by auto
  have unf: "main_loop H w n s = main_loop H w n ?s"
    using quiet ne_min ne_one by (rule main_loop_continue)
  have "?t - INT_MIN \<noteq> 0"
    using ne_min by simp
  then have e1: "unat (?t - INT_MIN - 1) = unat (?t - INT_MIN) - 1"
    by (rule unat_minus_one)
  have e2: "times_env (genv ?s) - INT_MIN = ?t - INT_MIN - 1"
    by (simp add: decr_times_fields tick_genv)
  have left: "unat (times_env (genv ?s) - INT_MIN) = d"
    by (simp only: e2 e1 Suc.prems(2) diff_Suc_1)
  have "\<exists>s'. main_loop H w n ?s = (Some SignedOverflow, s') \<and> ticks s' = ticks ?s + Suc d"
    using quiet left Suc.prems(3) by (intro Suc.IH) (simp_all add: decr_times_fields)
  then show ?case
    unfolding unf by (auto simp add: decr_times_fields tick_ticks)
qed

subsection \<open>Attachment and cleanup\<close>


lemma attach_loop_fails:
  assumes "i \<le> j" and "int j < n" and "pf j \<noteq> Attaches"
    and "\<forall>k. i \<le> k \<and> k < j \<longrightarrow> pf k = Attaches"
  shows "fst (attach_loop pf n i links) = - 1
       \<and> length (fst (snd (attach_loop pf n i links))) = length links
       \<and> (\<forall>k<length links. fst (snd (attach_loop pf n i links)) ! k
             = (if i \<le> k \<and> k < j then Some (Link k)
                else if k = j \<and> pf j = AttachFails then None else links ! k))"
  using assms
proof (induction pf n i links rule: attach_loop.induct)
  case (1 pf n i links)
  have lt: "int i < n" using "1.prems"(1,2) by simp
  show ?case
  proof (cases "i = j")
    case True
    show ?thesis
    proof (cases "pf j")
      case OpenFails
      then have "attach_loop pf n i links = (- 1, links, [FailedPerfInit])"
        using lt True by (subst attach_loop.simps) simp
      then show ?thesis using True OpenFails by auto
    next
      case AttachFails
      then have "attach_loop pf n i links = (- 1, links[i := None], [FailedAttach i])"
        using lt True by (subst attach_loop.simps) simp
      then show ?thesis using True AttachFails by (auto simp add: nth_list_update)
    next
      case Attaches
      then show ?thesis using "1.prems"(3) by simp
    qed
  next
    case False
    then have less: "i < j" using "1.prems"(1) by simp
    then have att: "pf i = Attaches" using "1.prems"(4) by simp
    have unf: "attach_loop pf n i links = attach_loop pf n (Suc i) (links[i := Some (Link i)])"
      using lt att by (subst attach_loop.simps) simp
    have IH: "fst (attach_loop pf n (Suc i) (links[i := Some (Link i)])) = - 1
       \<and> length (fst (snd (attach_loop pf n (Suc i) (links[i := Some (Link i)]))))
           = length (links[i := Some (Link i)])
       \<and> (\<forall>k<length (links[i := Some (Link i)]).
             fst (snd (attach_loop pf n (Suc i) (links[i := Some (Link i)]))) ! k
             = (if Suc i \<le> k \<and> k < j then Some (Link k)
                else if k = j \<and> pf j = AttachFails then None
                else links[i := Some (Link i)] ! k))"
      using lt att less "1.prems" by (intro "1.IH") simp_all
    show ?thesis
      unfolding unf using IH less by (auto simp add: nth_list_update)
  qed
qed

lemma destroy_loop_concat:
  "destroy_loop n i links d =
     d @ concat (map (\<lambda>k. case links ! k of None \<Rightarrow> [] | Some l \<Rightarrow> [l]) [i..<nat n])"
proof (induction n i links d rule: destroy_loop.induct)
  case (1 n i links d)
  show ?case
  proof (cases "int i < n")
    case True
    then have "i < nat n" by simp
    then have up: "[i..<nat n] = i # [Suc i..<nat n]" by (rule upt_conv_Cons)
    have "destroy_loop n i links d =
        destroy_loop n (Suc i) links (case links ! i of None \<Rightarrow> d | Some l \<Rightarrow> d @ [l])"
      using True by (subst destroy_loop.simps) simp
    also have "\<dots> = (case links ! i of None \<Rightarrow> d | Some l \<Rightarrow> d @ [l]) @
        concat (map (\<lambda>k. case links ! k of None \<Rightarrow> [] | Some l \<Rightarrow> [l]) [Suc i..<nat n])"
      using True by (rule "1.IH")
    finally show ?thesis
      unfolding up by (simp split: option.split)
  next
    case False
    then have "destroy_loop n i links d = d"
      by (subst destroy_loop.simps) simp
    then show ?thesis using False by simp
  qed
qed

lemma concat_prefix:
  "j \<le> N \<Longrightarrow> concat (map (\<lambda>k. if k < j then [g k] else []) [0..<N]) = map g [0..<j]"
proof (induction N)
  case 0
  then show ?case by simp
next
  case (Suc N)
  show ?case
  proof (cases "j = Suc N")
    case True
    have "concat (map (\<lambda>k. if k < j then [g k] else []) [0..<Suc N])
        = concat (map (\<lambda>k. [g k]) [0..<Suc N])"
      using True by (intro arg_cong [where f = concat] map_cong) auto
    then show ?thesis using True by (simp del: upt_Suc add: concat_map_singleton)
  next
    case False
    then have "j \<le> N" using Suc.prems by simp
    then show ?thesis using Suc.IH by simp
  qed
qed

lemma destroy_links:
  assumes "length links = nat n" and "j \<le> nat n"
    and "\<forall>k<nat n. links ! k = (if k < j then Some (Link k) else None)"
  shows "destroy_loop n 0 links [] = map Link [0..<j]"
proof -
  have eq: "map (\<lambda>k. case links ! k of None \<Rightarrow> [] | Some l \<Rightarrow> [l]) [0..<nat n]
      = map (\<lambda>k. if k < j then [Link k] else []) [0..<nat n]"
    using assms(3) by (intro map_cong) simp_all
  show ?thesis
    unfolding destroy_loop_concat eq using assms(2) by (simp add: concat_prefix)
qed

subsection \<open>Whole runs of main\<close>


lemma main_attach_failure:
  assumes "setup_ok H w" and "int j < num_possible_cpus w" and "perf w j \<noteq> Attaches"
    and "\<forall>i<j. perf w i = Attaches"
  shows "\<exists>ds. main H w e =
     \<lparr>status = Inr 0, stderr = ds, printed = [], destroyed = map Link [0..<j], reports = 0\<rparr>"
proof -
  let ?n = "num_possible_cpus w"
  let ?l0 = "replicate (nat ?n) (None :: link option)"
  let ?r = "attach_loop (perf w) ?n 0 ?l0"
  have bad: "fst ?r = - 1 \<and> length (fst (snd ?r)) = length ?l0
      \<and> (\<forall>k<length ?l0. fst (snd ?r) ! k
             = (if 0 \<le> k \<and> k < j then Some (Link k)
                else if k = j \<and> perf w j = AttachFails then None else ?l0 ! k))"
    using assms(2,3,4) by (intro attach_loop_fails) simp_all
  obtain links ds where r: "?r = (- 1, links, ds)"
    using bad by (cases ?r) auto
  have len: "length links = nat ?n"
    using bad r by simp
  have nth: "\<forall>k<nat ?n. links ! k = (if k < j then Some (Link k) else None)"
    using bad r by auto
  have "j \<le> nat ?n" using assms(2) by simp
  with len have d: "destroy_loop ?n 0 links [] = map Link [0..<j]"
    using nth by (rule destroy_links)
  show ?thesis
    using assms(1) r d
    by (simp add: main_def setup_ok_def Let_def open_and_attach_perf_event_def cleanup_def)
qed

lemma count_links: "count_list (map Link [0..<j]) (Link i) = (if i < j then 1 else 0)"
  by (induction j) auto


lemma scenario_setup_ok: "setup_ok scenario_header (scenario_world 2 True pf sg)"
  by (simp add: setup_ok_def scenario_header_def scenario_world_def)

lemma scenario_no_signal: "no_signal (scenario_world n ca pf (\<lambda>n. NoSignal))"
  by (simp add: no_signal_def scenario_world_def)


subsection \<open>What holds of every occupancy line\<close>

text \<open>
  Every occupancy percentage the reporter emits is a finite value in \<open>[0, 100]\<close>, so no
  division by zero happened; and when every sample of \<^emph>\<open>all\<close> the histograms the call
  passes through fell in bucket 0 (or there is no sample at all), every line shows 0.
  The table has the shape of its C type, and the header's constants are such that the
  64-bit accumulators cannot wrap. The quotient is the exact one: the rounding of the
  floating-point division is not modelled.
\<close>

lemma occupancy_lines_in_range:
  fixes hs :: "'a::len word hist list"
  assumes "wf_table H hs" and "0 < MAX_CPU_NR H" and "n \<le> int (MAX_CPU_NR H)"
    and "MAX_CPU_NR H * (MAX_SLOTS H * (2 ^ LENGTH('a) - 1)) < 2 ^ 64"
  shows "list_all line_ok (snd (print_runq_occupancy H e n hs))
       \<and> ((\<forall>j. visited e n 0 j \<longrightarrow> only_idle (hs ! j)) \<longrightarrow>
            list_all (\<lambda>l. pct l = Some (Fin 0)) (snd (print_runq_occupancy H e n hs)))
       \<and> ((\<forall>j. visited e n 0 j \<longrightarrow> list_all (\<lambda>v. v = 0) (slots (hs ! j))) \<longrightarrow>
            list_all (\<lambda>l. pct l = Some (Fin 0)) (snd (print_runq_occupancy H e n hs)))"
proof -
  have len: "length hs = MAX_CPU_NR H" and rows: "list_all (wf_hist H) hs"
    using assms(1) by (simp_all add: wf_table_def)
  have pos: "0 < length hs" and le: "n \<le> int (length hs)"
    using assms(2,3) len by simp_all
  have range: "list_all line_ok (snd (print_runq_occupancy H e n hs))"
    unfolding print_runq_occupancy_def
    using rows pos le assms(4) len by (intro occ_loop_in_range) simp_all
  have idle: "list_all (\<lambda>l. pct l = Some (Fin 0)) (snd (print_runq_occupancy H e n hs))"
    if "\<forall>j. visited e n 0 j \<longrightarrow> only_idle (hs ! j)"
    unfolding print_runq_occupancy_def
    using rows pos le that by (intro occ_loop_all_idle) simp_all
  have none: "list_all (\<lambda>l. pct l = Some (Fin 0)) (snd (print_runq_occupancy H e n hs))"
    if "\<forall>j. visited e n 0 j \<longrightarrow> list_all (\<lambda>v. v = 0) (slots (hs ! j))"
    using that by (intro idle) (simp add: all_zero_only_idle)
  show ?thesis
    using range idle none by blast
qed

lemma occupancy_lines_in_range_scenario:
  "wf_table scenario_header scenario_table
   \<and> wf_table scenario_header idle_table
   \<and> 0 < MAX_CPU_NR scenario_header
   \<and> 2 \<le> int (MAX_CPU_NR scenario_header)
   \<and> MAX_CPU_NR scenario_header * (MAX_SLOTS scenario_header * (2 ^ LENGTH(32) - 1)) < 2 ^ 64
   \<and> list_all line_ok
        (snd (print_runq_occupancy scenario_header (scenario_env True True 1) 2 scenario_table))
   \<and> list_all (\<lambda>l. pct l = Some (Fin 0))
        (snd (print_runq_occupancy scenario_header (scenario_env True True 1) 2 idle_table))"
proof -
  have h2: "0 < MAX_CPU_NR scenario_header" and h3: "2 \<le> int (MAX_CPU_NR scenario_header)"
    by (simp_all add: scenario_header_def)
  have a: "list_all line_ok
      (snd (print_runq_occupancy scenario_header (scenario_env True True 1) 2 scenario_table))"
    using occupancy_lines_in_range [OF scenario_wf h2 h3 scenario_bound] by (rule conjunct1)
  have idle: "\<forall>j. visited (scenario_env True True 1) 2 0 j \<longrightarrow> only_idle (idle_table ! j)"
    by (auto simp add: visited_def only_idle_def idle_table_def nth_Cons' scenario_env_def)
  have "(\<forall>j. visited (scenario_env True True 1) 2 0 j \<longrightarrow> only_idle (idle_table ! j)) \<longrightarrow>
      list_all (\<lambda>l. pct l = Some (Fin 0))
        (snd (print_runq_occupancy scenario_header (scenario_env True True 1) 2 idle_table))"
    using occupancy_lines_in_range [OF idle_table_wf h2 h3 scenario_bound]
    by (rule conjunct1 [OF conjunct2])
  then have b: "list_all (\<lambda>l. pct l = Some (Fin 0))
      (snd (print_runq_occupancy scenario_header (scenario_env True True 1) 2 idle_table))"
    using idle by (rule mp)
  show ?thesis
    by (intro conjI scenario_wf idle_table_wf h2 h3 scenario_bound a b)
qed

subsection \<open>Budgets that fit an int\<close>



section \<open>The claims\<close>

text \<open>
  Claim C1. In occupancy mode with per-processor output, the percentage printed for
  processor \<open>i\<close> is meant to come from processor \<open>i\<close>'s histogram alone; for the
  histograms \<open>[[5,2,1,0],[0,0,0,3]]\<close> processor 1 is meant to show 100.00%. The code
  declares \<^verbatim>\<open>idle\<close> and \<^verbatim>\<open>queued\<close> outside the \<^verbatim>\<open>do\<close> loop and never resets them, so
  the line of processor 1 is computed from the sums over processors 0 and 1: idle 5,
  queued 6, that is 600/11 (54.55%), while the occupancy of row 1 alone is 100.
\<close>

theorem C1_per_cpu_occupancy_accumulates:
  "snd (print_runq_occupancy scenario_header (scenario_env True True 1) 2 scenario_table)
     = [RunqoccCpu 0 (Fin (75 / 2)), RunqoccCpu 1 (Fin (600 / 11))]
   \<and> spec_occupancy (scenario_table ! 1) = Fin 100"
  by code_simp

text \<open>
  Claim C2. The exit status is meant to be 1 on every setup failure. When the attachment
  of a processor fails, or when the allocation of the link array fails, the code prints
  its diagnostic and jumps to \<^verbatim>\<open>cleanup\<close> with \<^verbatim>\<open>err\<close> still 0, so
  \<^verbatim>\<open>return err != 0\<close> gives 0; after a failed allocation with a positive processor count
  the cleanup loop even reads through the null array. Three runs of \<open>main\<close>: the
  attachment fails on the only processor; the allocation fails with no processor; the
  allocation fails with one processor.
\<close>

theorem C2_setup_failure_exit_status:
  "main scenario_header (scenario_world 1 True (\<lambda>i. OpenFails) (\<lambda>n. NoSignal))
       (scenario_env False False 1)
     = \<lparr>status = Inr 0, stderr = [FailedPerfInit], printed = [], destroyed = [],
        reports = 0\<rparr>
   \<and> main scenario_header (scenario_world 0 False (\<lambda>i. Attaches) (\<lambda>n. NoSignal))
       (scenario_env False False 1)
     = \<lparr>status = Inr 0, stderr = [FailedAlloc], printed = [], destroyed = [],
        reports = 0\<rparr>
   \<and> main scenario_header (scenario_world 1 False (\<lambda>i. Attaches) (\<lambda>n. NoSignal))
       (scenario_env False False 1)
     = \<lparr>status = Inl NullDeref, stderr = [FailedAlloc], printed = [], destroyed = [],
        reports = 0\<rparr>"
  by code_simp

text \<open>
  Claim C3, as amended. When per-processor output is disabled, one invocation of the
  reporter reads and resets the histogram at index 0 and no other, and emits a single
  output computed from that histogram alone: its buckets in linear mode, its occupancy
  in occupancy mode. (The loop condition \<^verbatim>\<open>env.per_cpu && ++i < nr_cpus\<close> ends the loop
  after index 0; \<^verbatim>\<open>main\<close> hands \<^verbatim>\<open>env.per_cpu\<close> to the sampler as \<^verbatim>\<open>targ_per_cpu\<close>.)
\<close>

theorem C3_aggregate_mode_row0:
  assumes "\<not> per_cpu e" and "wf_table H hs" and "0 < MAX_CPU_NR H"
  shows "report H e n hs =
           (hs[0 := zero_hist H],
            [if runqocc e then Runqocc (spec_occupancy (hs ! 0))
             else LinearHist (slots (hs ! 0)) (MAX_SLOTS H) ''runqlen''])"
  using assms(1) wf_table_row [OF assms(2) assms(3)] by (rule report_aggregate)

text \<open>The amended claim C3 on the scenario, in linear mode.\<close>

theorem C3_aggregate_mode_row0_witness:
  "\<not> per_cpu (scenario_env False False 1)
   \<and> wf_table scenario_header scenario_table
   \<and> 0 < MAX_CPU_NR scenario_header
   \<and> report scenario_header (scenario_env False False 1) 2 scenario_table
      = ([\<lparr>slots = [0, 0, 0, 0]\<rparr>, \<lparr>slots = [0, 0, 0, 3]\<rparr>],
         [LinearHist [5, 2, 1, 0] 4 ''runqlen''])"
proof -
  have h1: "\<not> per_cpu (scenario_env False False 1)"
    by (simp add: scenario_env_def)
  have h3: "0 < MAX_CPU_NR scenario_header"
    by (simp add: scenario_header_def)
  have "report scenario_header (scenario_env False False 1) 2 scenario_table =
      (scenario_table[0 := zero_hist scenario_header],
       [if runqocc (scenario_env False False 1)
        then Runqocc (spec_occupancy (scenario_table ! 0))
        else LinearHist (slots (scenario_table ! 0)) (MAX_SLOTS scenario_header) ''runqlen''])"
    by (rule C3_aggregate_mode_row0 [OF h1 scenario_wf h3])
  then have r: "report scenario_header (scenario_env False False 1) 2 scenario_table
      = ([\<lparr>slots = [0, 0, 0, 0]\<rparr>, \<lparr>slots = [0, 0, 0, 3]\<rparr>],
         [LinearHist [5, 2, 1, 0] 4 ''runqlen''])"
    by (simp add: scenario_zero) (simp add: scenario_env_def scenario_table_def scenario_header_def)
  show ?thesis by (intro conjI h1 scenario_wf h3 r)
qed

text \<open>
  Claim C3 as stated fails on the scenario: after the report row 1 still holds
  \<open>[0,0,0,3]\<close> (it was neither read nor reset), and the single output is row 0,
  \<open>[5,2,1,0]\<close>, not the bucket-wise sum \<open>[5,2,1,3]\<close>.
\<close>

theorem C3_aggregate_sum_counterexample:
  "fst (report scenario_header (scenario_env False False 1) 2 scenario_table) ! 1
     = \<lparr>slots = [0, 0, 0, 3]\<rparr>
   \<and> fst (report scenario_header (scenario_env False False 1) 2 scenario_table) ! 1
     \<noteq> zero_hist scenario_header
   \<and> snd (report scenario_header (scenario_env False False 1) 2 scenario_table)
     = [LinearHist [5, 2, 1, 0] 4 ''runqlen'']
   \<and> slots (spec_aggregate scenario_header scenario_table) = [5, 2, 1, 3]
   \<and> snd (report scenario_header (scenario_env False False 1) 2 scenario_table)
     \<noteq> [LinearHist (slots (spec_aggregate scenario_header scenario_table)) 4 ''runqlen'']"
proof -
  have a: "fst (report scenario_header (scenario_env False False 1) 2 scenario_table) ! 1
     = \<lparr>slots = [0, 0, 0, 3]\<rparr>"
    by code_simp
  have a': "fst (report scenario_header (scenario_env False False 1) 2 scenario_table) ! 1
     \<noteq> zero_hist scenario_header"
    unfolding a scenario_zero by simp
  have b: "snd (report scenario_header (scenario_env False False 1) 2 scenario_table)
     = [LinearHist [5, 2, 1, 0] 4 ''runqlen'']"
    by code_simp
  have c: "slots (spec_aggregate scenario_header scenario_table) = [5, 2, 1, 3]"
    by (simp add: spec_aggregate_def scenario_header_def scenario_table_def upt_rec)
  have b': "snd (report scenario_header (scenario_env False False 1) 2 scenario_table)
     \<noteq> [LinearHist (slots (spec_aggregate scenario_header scenario_table)) 4 ''runqlen'']"
    unfolding b c by simp
  show ?thesis by (intro conjI a a' b c b')
qed

text \<open>
  Claim C5. For every processor index \<open>i\<close> the reporter passes through in a tick, the
  table holds the all-zero histogram at \<open>i\<close> after the tick, so a second read of index
  \<open>i\<close> with no sampler write in between returns all zeros (the last conjunct is the
  read of the linear reporter's loop body, which would print an all-zero histogram).
\<close>

theorem C5_second_read_is_zero:
  assumes "visited e n 0 i" and "i < length hs"
  shows "fst (report H e n hs) ! i = zero_hist H
       \<and> slots (fst (report H e n hs) ! i) = replicate (MAX_SLOTS H) 0
       \<and> snd (lin_body H e i (fst (report H e n hs)))
           = (if per_cpu e then [CpuEq i] else []) @
             [LinearHist (replicate (MAX_SLOTS H) 0) (MAX_SLOTS H) ''runqlen'']"
proof -
  have z: "fst (report H e n hs) ! i = zero_hist H"
    using assms by (simp add: report_nth)
  then show ?thesis
    by (simp add: zero_hist_def lin_body_def Let_def)
qed

text \<open>Claim C5 on the scenario: processor 1, per-processor occupancy mode.\<close>

theorem C5_second_read_is_zero_witness:
  "visited (scenario_env True True 1) 2 0 1
   \<and> 1 < length scenario_table
   \<and> fst (report scenario_header (scenario_env True True 1) 2 scenario_table) ! 1
      = \<lparr>slots = [0, 0, 0, 0]\<rparr>"
proof -
  have h1: "visited (scenario_env True True 1) 2 0 1"
    by (simp add: visited_def scenario_env_def)
  have h2: "1 < length scenario_table"
    by (simp add: scenario_table_def)
  have "fst (report scenario_header (scenario_env True True 1) 2 scenario_table) ! 1
      = zero_hist scenario_header"
    using C5_second_read_is_zero [OF h1 h2] by (rule conjunct1)
  then have r: "fst (report scenario_header (scenario_env True True 1) 2 scenario_table) ! 1
      = \<lparr>slots = [0, 0, 0, 0]\<rparr>"
    by (simp only: scenario_zero)
  show ?thesis by (intro conjI h1 h2 r)
qed

text \<open>
  Claim C9. When per-processor output is disabled, a report tick in either rendering
  mode zeroes row 0 and nothing else: every row with index at least 1 is unchanged, and
  the output depends on row 0 only.
\<close>

theorem C9_aggregate_mode_frame:
  assumes "\<not> per_cpu e"
  shows "fst (report H e n hs) = hs[0 := zero_hist H]
       \<and> (\<forall>i. 1 \<le> i \<and> i < length hs \<longrightarrow> fst (report H e n hs) ! i = hs ! i)
       \<and> (\<forall>hs2. hs2 ! 0 = hs ! 0 \<longrightarrow> snd (report H e n hs2) = snd (report H e n hs))"
proof -
  have tab: "fst (report H e n hs) = hs[0 := zero_hist H]"
    using assms
    by (simp add: report_def print_runq_occupancy_def print_linear_hists_def
        occ_loop_last lin_loop_last occ_body_table)
  have frame: "\<forall>i. 1 \<le> i \<and> i < length hs \<longrightarrow> fst (report H e n hs) ! i = hs ! i"
    unfolding tab by simp
  have reads: "\<forall>hs2. hs2 ! 0 = hs ! 0 \<longrightarrow> snd (report H e n hs2) = snd (report H e n hs)"
    by (intro allI impI report_aggregate_reads_row0 assms)
  show ?thesis by (intro conjI tab frame reads)
qed

text \<open>Claim C9 on the scenario, in occupancy mode.\<close>

theorem C9_aggregate_mode_frame_witness:
  "\<not> per_cpu (scenario_env False True 1)
   \<and> fst (report scenario_header (scenario_env False True 1) 2 scenario_table)
      = [\<lparr>slots = [0, 0, 0, 0]\<rparr>, \<lparr>slots = [0, 0, 0, 3]\<rparr>]
   \<and> fst (report scenario_header (scenario_env False True 1) 2 scenario_table) ! 1
      = scenario_table ! 1"
proof -
  have h1: "\<not> per_cpu (scenario_env False True 1)"
    by (simp add: scenario_env_def)
  note inst = C9_aggregate_mode_frame [OF h1, of scenario_header 2 scenario_table]
  have "fst (report scenario_header (scenario_env False True 1) 2 scenario_table)
      = scenario_table[0 := zero_hist scenario_header]"
    using inst by (rule conjunct1)
  then have a: "fst (report scenario_header (scenario_env False True 1) 2 scenario_table)
      = [\<lparr>slots = [0, 0, 0, 0]\<rparr>, \<lparr>slots = [0, 0, 0, 3]\<rparr>]"
    by (simp add: scenario_zero) (simp add: scenario_table_def)
  have "\<forall>i. 1 \<le> i \<and> i < length scenario_table \<longrightarrow>
      fst (report scenario_header (scenario_env False True 1) 2 scenario_table) ! i
        = scenario_table ! i"
    using inst by (rule conjunct1 [OF conjunct2])
  then have b: "fst (report scenario_header (scenario_env False True 1) 2 scenario_table) ! 1
      = scenario_table ! 1"
    by (simp add: scenario_table_def)
  show ?thesis by (intro conjI h1 a b)
qed




text \<open>
  Claim C7. If the attachment for processor \<open>j\<close> fails (and it is the first to fail),
  the session aborts: no report is made and nothing is printed, and the links of the
  processors attached before \<open>j\<close> are destroyed, each exactly once and no other, before
  the process exits.
\<close>

theorem C7_attach_failure_aborts:
  assumes "setup_ok H w" and "int j < num_possible_cpus w" and "perf w j \<noteq> Attaches"
    and "\<forall>i<j. perf w i = Attaches"
  shows "reports (main H w e) = 0 \<and> printed (main H w e) = []
       \<and> destroyed (main H w e) = map Link [0..<j]
       \<and> (\<forall>i<j. count_list (destroyed (main H w e)) (Link i) = 1)
       \<and> (\<forall>i. j \<le> i \<longrightarrow> count_list (destroyed (main H w e)) (Link i) = 0)
       \<and> (\<exists>c. status (main H w e) = Inr c)"
proof -
  obtain ds where "main H w e =
     \<lparr>status = Inr 0, stderr = ds, printed = [], destroyed = map Link [0..<j], reports = 0\<rparr>"
    using main_attach_failure [OF assms] by blast
  then show ?thesis by (simp add: count_links)
qed

text \<open>Claim C7 on the scenario's machine: the attachment fails on processor 1 of 2.\<close>

theorem C7_attach_failure_aborts_witness:
  "setup_ok scenario_header
     (scenario_world 2 True (\<lambda>i. if i = 1 then AttachFails else Attaches) (\<lambda>n. NoSignal))
   \<and> int 1 < num_possible_cpus
       (scenario_world 2 True (\<lambda>i. if i = 1 then AttachFails else Attaches) (\<lambda>n. NoSignal))
   \<and> perf (scenario_world 2 True (\<lambda>i. if i = 1 then AttachFails else Attaches) (\<lambda>n. NoSignal)) 1
       \<noteq> Attaches
   \<and> reports (main scenario_header
       (scenario_world 2 True (\<lambda>i. if i = 1 then AttachFails else Attaches) (\<lambda>n. NoSignal))
       (scenario_env False False 3)) = 0
   \<and> destroyed (main scenario_header
       (scenario_world 2 True (\<lambda>i. if i = 1 then AttachFails else Attaches) (\<lambda>n. NoSignal))
       (scenario_env False False 3)) = [Link 0]"
proof -
  let ?w = "scenario_world 2 True (\<lambda>i. if i = 1 then AttachFails else Attaches) (\<lambda>n. NoSignal)"
  have h2: "int 1 < num_possible_cpus ?w" and h3: "perf ?w 1 \<noteq> Attaches"
    and h4: "\<forall>i<1. perf ?w i = Attaches"
    by (simp_all add: scenario_world_def)
  note inst = C7_attach_failure_aborts [OF scenario_setup_ok h2 h3 h4, of "scenario_env False False 3"]
  have a: "reports (main scenario_header ?w (scenario_env False False 3)) = 0"
    using inst by (rule conjunct1)
  have "destroyed (main scenario_header ?w (scenario_env False False 3)) = map Link [0..<1]"
    using inst by (rule conjunct1 [OF conjunct2 [OF conjunct2]])
  then have b: "destroyed (main scenario_header ?w (scenario_env False False 3)) = [Link 0]"
    by simp
  show ?thesis
    by (intro conjI scenario_setup_ok h2 h3 a b)
qed

text \<open>
  Claim C8. The handler only sets the flag. When a stop request arrives in an iteration
  (during the sleep or during the report), that iteration's report still runs to
  completion: the table is drained and the output written exactly as without the
  request, the budget is not touched, and only then, at the exit test, does the loop
  terminate.
\<close>

theorem C8_stop_request_at_boundary:
  fixes s :: "'a::len word proc"
  assumes "sigint w (ticks s) \<noteq> NoSignal"
  shows "main_loop H w n s = (None, tick H w n s)
       \<and> exiting (tick H w n s)
       \<and> ticks (tick H w n s) = Suc (ticks s)
       \<and> genv (tick H w n s) = genv s
       \<and> bss (tick H w n s) = fst (report H (genv s) n (sampler w (ticks s) (bss s)))
       \<and> stdout (tick H w n s) =
           stdout s @ [Blank] @
           (if timestamp (genv s) then [Timestamp (clock w (ticks s))] else []) @
           snd (report H (genv s) n (sampler w (ticks s) (bss s)))
       \<and> bss (tick H w n s) = bss (tick H (w\<lparr>sigint := \<lambda>n. NoSignal\<rparr>) n s)
       \<and> stdout (tick H w n s) = stdout (tick H (w\<lparr>sigint := \<lambda>n. NoSignal\<rparr>) n s)
       \<and> sig_handler s = s\<lparr>exiting := True\<rparr>"
proof -
  have flag: "exiting (tick H w n s)"
    using assms by (simp add: tick_exiting)
  then have stop: "main_loop H w n s = (None, tick H w n s)"
    by (rule main_loop_stop)
  show ?thesis
    using flag stop
    by (simp add: tick_ticks tick_genv tick_bss tick_stdout sig_handler_def)
qed

text \<open>
  Claim C8 on the scenario: the request arrives during the first report, which is still
  printed in full.
\<close>

theorem C8_stop_request_at_boundary_witness:
  "sigint (scenario_world 2 True (\<lambda>i. Attaches) (\<lambda>n. if n = 0 then InReport else NoSignal))
     (ticks (scenario_proc 5)) \<noteq> NoSignal
   \<and> main_loop scenario_header
       (scenario_world 2 True (\<lambda>i. Attaches) (\<lambda>n. if n = 0 then InReport else NoSignal)) 2
       (scenario_proc 5)
     = (None, tick scenario_header
         (scenario_world 2 True (\<lambda>i. Attaches) (\<lambda>n. if n = 0 then InReport else NoSignal)) 2
         (scenario_proc 5))
   \<and> stdout (tick scenario_header
         (scenario_world 2 True (\<lambda>i. Attaches) (\<lambda>n. if n = 0 then InReport else NoSignal)) 2
         (scenario_proc 5))
     = [Blank, LinearHist [5, 2, 1, 0] 4 ''runqlen'']"
proof -
  let ?w = "scenario_world 2 True (\<lambda>i. Attaches) (\<lambda>n. if n = 0 then InReport else NoSignal)"
  have h: "sigint ?w (ticks (scenario_proc 5)) \<noteq> NoSignal"
    by (simp add: scenario_world_def scenario_proc_def)
  note inst = C8_stop_request_at_boundary [OF h, where H = scenario_header and n = 2]
  have a: "main_loop scenario_header ?w 2 (scenario_proc 5)
      = (None, tick scenario_header ?w 2 (scenario_proc 5))"
    using inst by (rule conjunct1)
  have b: "stdout (tick scenario_header ?w 2 (scenario_proc 5))
      = [Blank, LinearHist [5, 2, 1, 0] 4 ''runqlen'']"
    by code_simp
  show ?thesis
    by (intro conjI h a b)
qed

text \<open>
  Claim C10. With a budget of exactly 0 and no cancellation signal, the session does not
  terminate after the first report: the decrement comes before the comparison, the budget
  becomes \<open>-1\<close>, and the loop goes round again (until the decrement overflows,
  \<open>2^31 + 1\<close> reports later). Without a signal the loop ends by budget exhaustion exactly
  for the initial budgets that are at least 1.
\<close>

theorem C10_zero_budget_keeps_running:
  fixes s :: "'a::len word proc"
  assumes "no_signal w" and "\<not> exiting s"
  shows "(times_env (genv s) = 0 \<longrightarrow>
            \<not> exiting (tick H w n s)
          \<and> times_env (genv (decr_times (tick H w n s))) = - 1
          \<and> main_loop H w n s = main_loop H w n (decr_times (tick H w n s))
          \<and> (\<exists>s'. main_loop H w n s = (Some SignedOverflow, s')
                \<and> ticks s' = ticks s + 2 ^ 31 + 1))
       \<and> (fst (main_loop H w n s) = None \<longleftrightarrow> 0 < sint (times_env (genv s)))"
proof -
  have quiet: "\<not> exiting (tick H w n s)"
    using assms by (simp add: tick_exiting no_signal_def)
  have zero: "\<not> exiting (tick H w n s)
          \<and> times_env (genv (decr_times (tick H w n s))) = - 1
          \<and> main_loop H w n s = main_loop H w n (decr_times (tick H w n s))
          \<and> (\<exists>s'. main_loop H w n s = (Some SignedOverflow, s')
                \<and> ticks s' = ticks s + 2 ^ 31 + 1)"
    if t: "times_env (genv s) = 0"
  proof -
    have a: "times_env (genv (decr_times (tick H w n s))) = - 1"
      using t by (simp add: decr_times_fields tick_genv)
    have "times_env (genv s) \<noteq> INT_MIN" and "times_env (genv s) \<noteq> 1"
      using t by (simp_all add: INT_MIN_def)
    with quiet have b: "main_loop H w n s = main_loop H w n (decr_times (tick H w n s))"
      by (rule main_loop_continue)
    have d: "unat (times_env (genv s) - INT_MIN) = 2 ^ 31"
      using t by (simp add: INT_MIN_def)
    have "\<exists>s'. main_loop H w n s = (Some SignedOverflow, s') \<and> ticks s' = ticks s + Suc (2 ^ 31)"
      by (rule main_loop_nonpositive [OF assms d]) simp
    then obtain s' where x: "main_loop H w n s = (Some SignedOverflow, s')"
      and y: "ticks s' = ticks s + Suc (2 ^ 31)"
      by blast
    have "ticks s' = ticks s + 2 ^ 31 + 1"
      using y by simp
    with x have c: "\<exists>s'. main_loop H w n s = (Some SignedOverflow, s')
        \<and> ticks s' = ticks s + 2 ^ 31 + 1"
      by blast
    show ?thesis by (intro conjI quiet a b c)
  qed
  have iff: "fst (main_loop H w n s) = None \<longleftrightarrow> 0 < sint (times_env (genv s))"
  proof (cases "0 < sint (times_env (genv s))")
    case True
    obtain m where m: "unat (times_env (genv s)) = Suc m" and small: "Suc m < 2 ^ 31"
      using positive_budget [OF True] by (cases "unat (times_env (genv s))") auto
    have "\<exists>s'. main_loop H w n s = (None, s') \<and> ticks s' = ticks s + Suc m \<and> \<not> exiting s'"
      by (rule main_loop_positive [OF assms m small])
    then show ?thesis using True by auto
  next
    case False
    then have le: "sint (times_env (genv s)) \<le> 0" by simp
    have "unat (times_env (genv s) - INT_MIN) \<le> 2 ^ 31"
      using nonpositive_budget [OF le] by (rule conjunct1)
    then have "\<exists>s'. main_loop H w n s = (Some SignedOverflow, s')
        \<and> ticks s' = ticks s + Suc (unat (times_env (genv s) - INT_MIN))"
      by (intro main_loop_nonpositive [OF assms]) simp_all
    then show ?thesis using False by auto
  qed
  show ?thesis using zero iff by blast
qed

text \<open>Claim C10 on the scenario, with the budget 0.\<close>

theorem C10_zero_budget_keeps_running_witness:
  "no_signal (scenario_world 2 True (\<lambda>i. Attaches) (\<lambda>n. NoSignal))
   \<and> \<not> exiting (scenario_proc 0)
   \<and> times_env (genv (scenario_proc 0)) = 0
   \<and> times_env (genv (decr_times
        (tick scenario_header (scenario_world 2 True (\<lambda>i. Attaches) (\<lambda>n. NoSignal)) 2
           (scenario_proc 0)))) = - 1
   \<and> fst (main_loop scenario_header (scenario_world 2 True (\<lambda>i. Attaches) (\<lambda>n. NoSignal)) 2
        (scenario_proc 0)) \<noteq> None"
proof -
  let ?w = "scenario_world 2 True (\<lambda>i. Attaches) (\<lambda>n. NoSignal)"
  have h2: "\<not> exiting (scenario_proc 0)"
    and t: "times_env (genv (scenario_proc 0)) = 0"
    by (simp_all add: scenario_proc_def scenario_env_def)
  note inst = C10_zero_budget_keeps_running
    [OF scenario_no_signal [of 2 True "\<lambda>i. Attaches"] h2, where H = scenario_header and n = 2]
  have a: "times_env (genv (decr_times (tick scenario_header ?w 2 (scenario_proc 0)))) = - 1"
    using inst t by blast
  have "fst (main_loop scenario_header ?w 2 (scenario_proc 0)) = None
      \<longleftrightarrow> 0 < sint (times_env (genv (scenario_proc 0)))"
    using inst by (rule conjunct2)
  then have b: "fst (main_loop scenario_header ?w 2 (scenario_proc 0)) \<noteq> None"
    by (simp add: t)
  show ?thesis
    by (intro conjI scenario_no_signal h2 t a b)
qed

text \<open>
  Claim C6. A histogram with all its mass in bucket 0, and one with no sample at all,
  is meant to be reported with an occupancy of 0.00%. In per-processor mode the
  accumulators \<^verbatim>\<open>idle\<close> and \<^verbatim>\<open>queued\<close> are not reset between processors, so the line of
  a processor whose own histogram is idle or empty still carries the queued samples of
  the processors before it: after the busy row \<open>[5,2,1,0]\<close> the idle row \<open>[7,0,0,0]\<close> is
  reported with 3/15, that is 20%, and an empty row with 3/8, that is 37.5%, where the
  occupancy of either row alone is 0.
\<close>

theorem C6_idle_row_after_busy_row:
  "only_idle (busy_idle_table ! 1)
   \<and> spec_occupancy (busy_idle_table ! 1) = Fin 0
   \<and> snd (print_runq_occupancy scenario_header (scenario_env True True 1) 2 busy_idle_table)
     = [RunqoccCpu 0 (Fin (75 / 2)), RunqoccCpu 1 (Fin 20)]
   \<and> busy_empty_table ! 1 = zero_hist scenario_header
   \<and> spec_occupancy (busy_empty_table ! 1) = Fin 0
   \<and> snd (print_runq_occupancy scenario_header (scenario_env True True 1) 2 busy_empty_table)
     = [RunqoccCpu 0 (Fin (75 / 2)), RunqoccCpu 1 (Fin (75 / 2))]"
  by code_simp

end
